theory Spec2Isabelle
  imports Main "HOL-Library.AList"
begin

section \<open>Errors and results\<close>

text \<open>
  Go strings and byte slices are both sequences of bytes; they are modelled as
  \<^typ>\<open>string\<close> (a list of \<^typ>\<open>char\<close>, each one byte).
\<close>

record HTTPStatusError =
  StatusCode :: int
  Message :: string

text \<open>
  The values of Go's \<open>error\<close> interface that this package handles: the sentinel errors of
  \<open>io\<close> and \<open>bufio\<close>, the error of reading a closed HTTP response body, the package's own
  \<open>HTTPStatusError\<close>, and any other error (transport, read, close, decode), identified
  by its text.
\<close>

datatype error =
    EOF
  | ErrBufferFull
  | ErrNoProgress
  | ErrBodyReadAfterClose
  | HTTPStatus HTTPStatusError
  | OtherError string

text \<open>
  A call either returns or panics on a nil dereference (a \<open>Stream\<close> that \<open>Open\<close> did not
  build has nil \<open>body\<close> and \<open>r\<close>).
\<close>

datatype 'a outcome = Returns 'a | NilPanic

section \<open>The response body and the buffered reader\<close>

text \<open>
  \<open>io.ReadCloser\<close> and \<open>bufio.Reader\<close> belong to Go's library; they are modelled here as
  far as this package uses them, \<open>bufio.Reader\<close> after its methods \<open>fill\<close>, \<open>ReadSlice\<close> and
  \<open>Read\<close>.

  The response body is an \<open>io.ReadCloser\<close> owned by the HTTP transport. Its state is the
  bytes the connection will still deliver, the sizes of the pieces in which it hands
  them over, the error \<open>Read\<close> gives once they are used up (\<open>EOF\<close> for an orderly end), the
  number of \<open>Close\<close> and \<open>Read\<close> calls it has received and the result its \<open>Close\<close> gives.
\<close>

record ReadCloser =
  pending :: string
  deliveries :: "nat list"
  final :: error
  closed :: nat
  close_result :: "error option"
  reads :: nat

text \<open>
  \<open>Read(p)\<close> with \<open>len(p) = k\<close>: a closed body fails, an exhausted one gives its final
  error, otherwise the next piece is delivered: at least one byte and at most \<open>k\<close>, of the
  size \<open>deliveries\<close> gives, and all \<open>k\<close> bytes once that list is used up.
\<close>

definition piece :: "nat list \<Rightarrow> nat \<Rightarrow> nat" where
  "piece ds k = (case ds of [] \<Rightarrow> k | c # cs \<Rightarrow> min k (max 1 c))"

definition Read_body :: "ReadCloser \<Rightarrow> nat \<Rightarrow> (string \<times> error option) \<times> ReadCloser" where
  "Read_body rd k =
     (let rd' = rd\<lparr>reads := reads rd + 1\<rparr> in
      if 0 < closed rd then (([], Some ErrBodyReadAfterClose), rd')
      else if pending rd = [] then (([], Some (final rd)), rd')
      else ((take (piece (deliveries rd) k) (pending rd), None),
            rd'\<lparr>pending := drop (piece (deliveries rd) k) (pending rd),
                deliveries := tl (deliveries rd)\<rparr>))"

lemma piece_bounds: "piece ds k \<le> k \<and> (0 < k \<longrightarrow> 0 < piece ds k)"
  by (cases ds) (auto simp: piece_def)

definition Close_body :: "ReadCloser \<Rightarrow> error option \<times> ReadCloser" where
  "Close_body rd = (close_result rd, rd\<lparr>closed := closed rd + 1\<rparr>)"

text \<open>
  \<open>bufio.Reader\<close>: \<open>bufsize\<close> is \<open>len(b.buf)\<close>, \<open>buffered\<close> is the unread part
  \<open>b.buf[b.r:b.w]\<close> and \<open>rerr\<close> is the pending error \<open>b.err\<close>. The reader wraps the body
  of the same \<open>Stream\<close>, which is passed along explicitly.
\<close>

record Reader =
  bufsize :: nat
  buffered :: string
  rerr :: "error option"

definition minReadBufferSize :: nat where
  "minReadBufferSize = 16"

definition maxConsecutiveEmptyReads :: nat where
  "maxConsecutiveEmptyReads = 100"

definition NewReaderSize :: "nat \<Rightarrow> Reader" where
  "NewReaderSize n = \<lparr>bufsize = max n minReadBufferSize, buffered = [], rerr = None\<rparr>"

text \<open>
  \<open>fill\<close> reads a new chunk into the free part of the buffer, trying again after an empty
  read at most \<open>maxConsecutiveEmptyReads\<close> times. \<open>ReadSlice\<close> calls it only when the buffer
  is not full.
\<close>

fun fill_loop :: "nat \<Rightarrow> Reader \<Rightarrow> ReadCloser \<Rightarrow> Reader \<times> ReadCloser" where
  "fill_loop 0 b rd = (b\<lparr>rerr := Some ErrNoProgress\<rparr>, rd)"
| "fill_loop (Suc i) b rd =
     (case Read_body rd (bufsize b - length (buffered b)) of
        ((p, e), rd') \<Rightarrow>
          (let b' = b\<lparr>buffered := buffered b @ p\<rparr> in
           case e of
             Some x \<Rightarrow> (b'\<lparr>rerr := Some x\<rparr>, rd')
           | None \<Rightarrow> if p \<noteq> [] then (b', rd') else fill_loop i b' rd'))"

definition fill :: "Reader \<Rightarrow> ReadCloser \<Rightarrow> Reader \<times> ReadCloser" where
  "fill b rd = fill_loop maxConsecutiveEmptyReads b rd"

lemma fill_loop_progress:
  assumes "rerr b = None" and "length (buffered b) < bufsize b"
    and "fill_loop i b rd = (b', rd')"
  shows "bufsize b' = bufsize b \<and>
         length (buffered b') + length (pending rd') = length (buffered b) + length (pending rd) \<and>
         closed rd' = closed rd \<and> final rd' = final rd \<and> close_result rd' = close_result rd \<and>
         ((rerr b' \<noteq> None \<and> buffered b' = buffered b) \<or>
          (rerr b' = None \<and> length (buffered b) < length (buffered b') \<and>
           length (buffered b') \<le> bufsize b))"
  using assms
proof (induction i arbitrary: b rd)
  case 0
  then show ?case by auto
next
  case (Suc i)
  show ?case
  proof (cases "0 < closed rd \<or> pending rd = []")
    case True
    with Suc.prems show ?thesis
      by (auto simp: Read_body_def Let_def split: if_splits)
  next
    case False
    from Suc.prems(2) piece_bounds [of "deliveries rd" "bufsize b - length (buffered b)"]
    have "0 < piece (deliveries rd) (bufsize b - length (buffered b))"
      and "piece (deliveries rd) (bufsize b - length (buffered b)) \<le> bufsize b - length (buffered b)"
      by simp_all
    with False Suc.prems show ?thesis
      by (auto simp: Read_body_def Let_def split: if_splits)
  qed
qed

lemma fill_progress:
  assumes "rerr b = None" and "length (buffered b) < bufsize b" and "fill b rd = (b', rd')"
  shows "bufsize b' = bufsize b \<and>
         length (buffered b') + length (pending rd') = length (buffered b) + length (pending rd) \<and>
         closed rd' = closed rd \<and> final rd' = final rd \<and> close_result rd' = close_result rd \<and>
         ((rerr b' \<noteq> None \<and> buffered b' = buffered b) \<or>
          (rerr b' = None \<and> length (buffered b) < length (buffered b') \<and>
           length (buffered b') \<le> bufsize b))"
  using assms fill_loop_progress unfolding fill_def by blast

text \<open>
  \<open>ReadSlice(delim)\<close>: search the buffer; else give the pending error with what is
  buffered; else fail with \<open>ErrBufferFull\<close> when the buffer is full; else fill and search
  again. The result is Go's pair of the slice and the error.
\<close>

function ReadSlice :: "Reader \<Rightarrow> ReadCloser \<Rightarrow> char \<Rightarrow> (string \<times> error option) \<times> Reader \<times> ReadCloser" where
  "ReadSlice b rd delim =
     (if delim \<in> set (buffered b) then
        (let line = takeWhile (\<lambda>c. c \<noteq> delim) (buffered b) @ [delim] in
         ((line, None), b\<lparr>buffered := drop (length line) (buffered b)\<rparr>, rd))
      else case rerr b of
        Some e \<Rightarrow> ((buffered b, Some e), b\<lparr>buffered := [], rerr := None\<rparr>, rd)
      | None \<Rightarrow>
          if bufsize b \<le> length (buffered b)
          then ((buffered b, Some ErrBufferFull), b\<lparr>buffered := []\<rparr>, rd)
          else (case fill b rd of (b', rd') \<Rightarrow> ReadSlice b' rd' delim))"
  by pat_completeness auto

termination
proof (relation "measure (\<lambda>(b, rd, delim).
          2 * (bufsize b - length (buffered b)) + (if rerr b = None then 1 else 0))", goal_cases)
  case 1
  show ?case by simp
next
  case (2 b rd delim b' rd')
  then have f: "fill b rd = (b', rd')" by simp
  from 2 have n: "rerr b = None" and lt: "length (buffered b) < bufsize b" by simp_all
  from fill_progress [OF n lt f] n lt show ?case by auto
qed

declare ReadSlice.simps [simp del]

lemma ReadSlice_consumes:
  "ReadSlice b rd delim = ((p, None), b', rd') \<Longrightarrow>
   length (buffered b') + length (pending rd') < length (buffered b) + length (pending rd)"
proof (induction b rd delim rule: ReadSlice.induct)
  case (1 b rd delim)
  show ?case
  proof (cases "delim \<in> set (buffered b)")
    case True
    then have "buffered b \<noteq> []" by auto
    with True "1.prems" show ?thesis
      by (auto simp: Let_def ReadSlice.simps [of b rd delim])
  next
    case False
    note nd = this
    show ?thesis
    proof (cases "rerr b")
      case (Some e)
      with nd "1.prems" show ?thesis by (simp add: ReadSlice.simps [of b rd delim])
    next
      case None
      show ?thesis
      proof (cases "bufsize b \<le> length (buffered b)")
        case True
        with nd None "1.prems" show ?thesis by (simp add: ReadSlice.simps [of b rd delim])
      next
        case False
        obtain b1 rd1 where f: "fill b rd = (b1, rd1)" by (cases "fill b rd")
        from False have lt: "length (buffered b) < bufsize b" by simp
        from nd None False f "1.prems"
        have "ReadSlice b1 rd1 delim = ((p, None), b', rd')"
          by (simp add: ReadSlice.simps [of b rd delim])
        from "1.IH" [OF nd None False f [symmetric] this]
        have "length (buffered b') + length (pending rd') <
              length (buffered b1) + length (pending rd1)" by simp
        with fill_progress [OF None lt f] show ?thesis by simp
      qed
    qed
  qed
qed

section \<open>The stream\<close>

text \<open>
  The \<open>Stream\<close> struct. \<open>body\<close> and \<open>r\<close> are nil (\<open>None\<close>) until \<open>Open\<close> sets them; \<open>r\<close>
  reads from \<open>body\<close>. \<open>err\<close> is the permanent error, nil while the stream is usable.
\<close>

record Stream =
  chunkRemaining :: int
  chunkState :: int
  body :: "ReadCloser option"
  r :: "Reader option"
  err :: "error option"

text \<open>\<open>new(Stream)\<close>: every field has its zero value.\<close>

definition new_Stream :: Stream where
  "new_Stream = \<lparr>chunkRemaining = 0, chunkState = 0, body = None, r = None, err = None\<rparr>"

definition CR :: char where
  "CR = CHR 0x0D"

text \<open>
  \<open>fatal\<close> closes the body when there is one (the result of that \<open>Close\<close> is dropped), keeps
  the first error as the permanent one and returns the error it was given.
\<close>

definition fatal :: "error \<Rightarrow> Stream \<Rightarrow> error \<times> Stream" where
  "fatal e ts =
     (let ts1 = (case body ts of
                   Some rd \<Rightarrow> ts\<lparr>body := Some (snd (Close_body rd))\<rparr>
                 | None \<Rightarrow> ts);
          ts2 = (if err ts1 = None then ts1\<lparr>err := Some e\<rparr> else ts1)
      in (e, ts2))"

definition Close :: "Stream \<Rightarrow> error option outcome \<times> Stream" where
  "Close ts =
     (case err ts of
        Some e \<Rightarrow> (Returns (Some e), ts)
      | None \<Rightarrow>
          (case body ts of
             None \<Rightarrow> (NilPanic, ts)
           | Some rd \<Rightarrow>
               (case Close_body rd of (res, rd') \<Rightarrow> (Returns res, ts\<lparr>body := Some rd'\<rparr>))))"

definition Err :: "Stream \<Rightarrow> error option" where
  "Err ts = err ts"

text \<open>The bytes a stream has buffered or still to come.\<close>

definition unread :: "Stream \<Rightarrow> nat" where
  "unread ts =
     (case r ts of None \<Rightarrow> 0 | Some b \<Rightarrow>
        (case body ts of None \<Rightarrow> 0 | Some rd \<Rightarrow> length (buffered b) + length (pending rd)))"

text \<open>
  The read loop of \<open>Next\<close>. A slice of at most 2 bytes is a keepalive line and the loop
  goes on; a failed read goes through \<open>fatal\<close>. Every successful \<open>ReadSlice\<close> consumes at
  least the delimiter, and a body delivers finitely many bytes before its final error,
  so the loop ends. (A connection that never ends and sends nothing but keepalives would
  keep the loop of the program running; it is not a value of \<open>ReadCloser\<close>.)
\<close>

function Next_loop :: "Stream \<Rightarrow> (error + string) outcome \<times> Stream" where
  "Next_loop ts =
     (case r ts of
        None \<Rightarrow> (NilPanic, ts)
      | Some b \<Rightarrow>
          (case body ts of
             None \<Rightarrow> (NilPanic, ts)
           | Some rd \<Rightarrow>
               (case ReadSlice b rd CR of
                  ((p, Some e), b', rd') \<Rightarrow>
                    (case fatal e (ts\<lparr>body := Some rd', r := Some b'\<rparr>) of
                       (e', ts') \<Rightarrow> (Returns (Inl e'), ts'))
                | ((p, None), b', rd') \<Rightarrow>
                    if length p \<le> 2
                    then Next_loop (ts\<lparr>body := Some rd', r := Some b'\<rparr>)
                    else (Returns (Inr p), ts\<lparr>body := Some rd', r := Some b'\<rparr>))))"
  by pat_completeness auto

termination
proof (relation "measure unread", goal_cases)
  case 1
  show ?case by simp
next
  case (2 ts b rd x y p e b' rd')
  then have "ReadSlice b rd CR = ((p, None), b', rd')" by simp
  from ReadSlice_consumes [OF this] 2 show ?case
    by (simp add: unread_def)
qed

declare Next_loop.simps [simp del]

definition Next :: "Stream \<Rightarrow> (error + string) outcome \<times> Stream" where
  "Next ts = (case err ts of Some e \<Rightarrow> (Returns (Inl e), ts) | None \<Rightarrow> Next_loop ts)"

text \<open>
  \<open>json.Unmarshal(p, data)\<close> is a parameter: from the bytes and the target's value it
  gives the error, if any, and the target's new value. \<open>UnmarshalNext\<close> returns the error and
  the target as the call leaves it.
\<close>

definition UnmarshalNext ::
  "(string \<Rightarrow> 'v \<Rightarrow> error option \<times> 'v) \<Rightarrow> 'v \<Rightarrow> Stream \<Rightarrow> (error option \<times> 'v) outcome \<times> Stream" where
  "UnmarshalNext Unmarshal data ts =
     (case Next ts of
        (NilPanic, ts') \<Rightarrow> (NilPanic, ts')
      | (Returns (Inl e), ts') \<Rightarrow> (Returns (Some e, data), ts')
      | (Returns (Inr p), ts') \<Rightarrow> (Returns (Unmarshal p data), ts'))"

section \<open>Opening a stream\<close>

text \<open>
  \<open>strconv.Itoa\<close> and the \<open>Error\<close> method of \<open>HTTPStatusError\<close>.
\<close>

fun Itoa_nat :: "nat \<Rightarrow> string" where
  "Itoa_nat n =
     (if n < 10 then [''0123456789'' ! n]
      else Itoa_nat (n div 10) @ [''0123456789'' ! (n mod 10)])"

declare Itoa_nat.simps [simp del]

definition Itoa :: "int \<Rightarrow> string" where
  "Itoa i = (if i < 0 then CHR ''-'' # Itoa_nat (nat (- i)) else Itoa_nat (nat i))"

definition Error :: "HTTPStatusError \<Rightarrow> string" where
  "Error e = ''twitterstream: status='' @ Itoa (StatusCode e) @ '' '' @ Message e"

text \<open>
  \<open>Read\<close> of \<open>bufio.Reader\<close> with \<open>len(p) = n\<close>, and \<open>ioutil.ReadAll\<close>, which reads until
  the first error and reports \<open>EOF\<close> as success. \<open>ReadAll\<close> asks for \<open>MinRead\<close> bytes at a
  time.
\<close>

definition Reader_Read :: "Reader \<Rightarrow> ReadCloser \<Rightarrow> nat \<Rightarrow> (string \<times> error option) \<times> Reader \<times> ReadCloser" where
  "Reader_Read b rd n =
     (if n = 0 then
        (if buffered b \<noteq> [] then (([], None), b, rd)
         else (([], rerr b), b\<lparr>rerr := None\<rparr>, rd))
      else if buffered b = [] then
        (case rerr b of
           Some e \<Rightarrow> (([], Some e), b\<lparr>rerr := None\<rparr>, rd)
         | None \<Rightarrow>
             if bufsize b \<le> n then
               (case Read_body rd n of ((p, e), rd') \<Rightarrow> ((p, e), b, rd'))
             else
               (case Read_body rd (bufsize b) of
                  ((p, e), rd') \<Rightarrow>
                    if p = [] then (([], e), b, rd')
                    else ((take n p, None), b\<lparr>buffered := drop n p, rerr := e\<rparr>, rd')))
      else ((take n (buffered b), None), b\<lparr>buffered := drop n (buffered b)\<rparr>, rd))"

definition MinRead :: nat where
  "MinRead = 512"

lemma Reader_Read_consumes:
  assumes "Reader_Read b rd n = ((p, None), b', rd')" and "0 < n"
  shows "length (buffered b') + length (pending rd') < length (buffered b) + length (pending rd)"
proof (cases "buffered b = []")
  case False
  with assms show ?thesis
    by (cases "buffered b") (auto simp: Reader_Read_def)
next
  case True
  show ?thesis
  proof (cases "0 < closed rd \<or> pending rd = []")
    case True
    with assms \<open>buffered b = []\<close> show ?thesis
      by (auto simp: Reader_Read_def Read_body_def Let_def split: option.splits if_splits)
  next
    case False
    then obtain c cs where pc: "pending rd = c # cs" by (cases "pending rd") auto
    from assms(2) piece_bounds [of "deliveries rd" n]
    have p1: "0 < piece (deliveries rd) n" by simp
    have p2: "0 < piece (deliveries rd) (bufsize b)" if "n < bufsize b"
      using that piece_bounds [of "deliveries rd" "bufsize b"] by simp
    show ?thesis
    proof (cases "bufsize b \<le> n")
      case True
      with pc p1 False assms \<open>buffered b = []\<close> show ?thesis
        by (auto simp: Reader_Read_def Read_body_def Let_def split: option.splits if_splits)
    next
      case large: False
      with p2 have "0 < piece (deliveries rd) (bufsize b)" by simp
      with pc large False assms \<open>buffered b = []\<close> show ?thesis
        by (auto simp: Reader_Read_def Read_body_def Let_def min_def
            split: option.splits if_splits)
    qed
  qed
qed

function ReadAll_loop :: "Reader \<Rightarrow> ReadCloser \<Rightarrow> string \<Rightarrow> (string \<times> error option) \<times> Reader \<times> ReadCloser" where
  "ReadAll_loop b rd acc =
     (case Reader_Read b rd MinRead of
        ((p, Some e), b', rd') \<Rightarrow> ((acc @ p, if e = EOF then None else Some e), b', rd')
      | ((p, None), b', rd') \<Rightarrow> ReadAll_loop b' rd' (acc @ p))"
  by pat_completeness auto

termination
proof (relation "measure (\<lambda>(b, rd, acc). length (buffered b) + length (pending rd))", goal_cases)
  case 1
  show ?case by simp
next
  case (2 b rd acc x y p e b' rd')
  then have "Reader_Read b rd MinRead = ((p, None), b', rd')" by simp
  from Reader_Read_consumes [OF this] show ?case
    by (simp add: MinRead_def)
qed

declare ReadAll_loop.simps [simp del]

definition ReadAll :: "Reader \<Rightarrow> ReadCloser \<Rightarrow> (string \<times> error option) \<times> Reader \<times> ReadCloser" where
  "ReadAll b rd = ReadAll_loop b rd []"

text \<open>
  \<open>url.Values\<close> is a Go map from keys to lists of values: a reference to a map object.
  The map objects live in a store, addressed by their index; the contents of one are its
  entries, one per key, listed in the order in which \<open>range\<close> visits them. An address outside
  the store is the nil map, which has no entries.
\<close>

type_synonym Values = "(string \<times> string list) list"

type_synonym store = "Values list"

definition entries :: "store \<Rightarrow> nat \<Rightarrow> Values" where
  "entries h a = (if a < length h then h ! a else [])"

record Response =
  RespStatusCode :: int
  RespBody :: ReadCloser

text \<open>
  \<open>Open\<close>. The signer \<open>SignParam\<close> and the transport \<open>PostForm\<close> are parameters: the signer
  rewrites the contents of the map object it is given, the transport gives an error or a
  response. The result holds what \<open>Open\<close> returns (the error, or the stream), the state of
  the response body at that moment when a response was obtained, and the store.
\<close>

definition Open ::
  "('c \<Rightarrow> 'a \<Rightarrow> string \<Rightarrow> string \<Rightarrow> Values \<Rightarrow> Values) \<Rightarrow> (string \<Rightarrow> Values \<Rightarrow> error + Response) \<Rightarrow>
   'c \<Rightarrow> 'a \<Rightarrow> string \<Rightarrow> nat \<Rightarrow> store \<Rightarrow> (error + Stream) \<times> ReadCloser option \<times> store" where
  "Open SignParam PostForm oauthClient accessToken urlStr params h =
     (let ts = new_Stream;
          pcopy = length h;
          h1 = h @ [[]];
          h2 = fold (\<lambda>(key, values) hp. hp[pcopy := AList.update key values (hp ! pcopy)])
                 (entries h params) h1;
          h3 = h2[pcopy := SignParam oauthClient accessToken ''POST'' urlStr (h2 ! pcopy)]
      in case PostForm urlStr (h3 ! pcopy) of
           Inl e \<Rightarrow> (Inl (fst (fatal e ts)), None, h3)
         | Inr resp \<Rightarrow>
             (let b = NewReaderSize 8192;
                  ts1 = ts\<lparr>body := Some (RespBody resp), r := Some b\<rparr>
              in if RespStatusCode resp \<noteq> 200 then
                   (case ReadAll b (RespBody resp) of
                      ((p, e), b', rd') \<Rightarrow>
                        (Inl (HTTPStatus \<lparr>StatusCode = RespStatusCode resp, Message = p\<rparr>),
                         Some rd', h3))
                 else (Inr ts1, body ts1, h3)))"

section \<open>What a caller can observe of a stream\<close>

text \<open>
  \<open>closes\<close> and \<open>reads_made\<close> count the \<open>Close\<close> and \<open>Read\<close> calls the body of a stream has
  received; \<open>content\<close> is the bytes not yet consumed, those buffered followed by those
  still to come; \<open>last_error\<close> is the error the connection ends with. A stream is
  \<open>streaming\<close> when it is as \<open>Open\<close> builds it and as every successful \<open>Next\<close> leaves it:
  no permanent error, a reader of 8192 bytes with no pending error, a body that was
  not closed.
\<close>

definition closes :: "Stream \<Rightarrow> nat" where
  "closes ts = (case body ts of None \<Rightarrow> 0 | Some rd \<Rightarrow> closed rd)"

definition reads_made :: "Stream \<Rightarrow> nat" where
  "reads_made ts = (case body ts of None \<Rightarrow> 0 | Some rd \<Rightarrow> reads rd)"

definition content :: "Stream \<Rightarrow> string" where
  "content ts =
     (case r ts of None \<Rightarrow> [] | Some b \<Rightarrow> buffered b) @
     (case body ts of None \<Rightarrow> [] | Some rd \<Rightarrow> pending rd)"

definition last_error :: "Stream \<Rightarrow> error option" where
  "last_error ts = map_option final (body ts)"

definition streaming :: "Stream \<Rightarrow> bool" where
  "streaming ts =
     (err ts = None \<and>
      (case r ts of None \<Rightarrow> False | Some b \<Rightarrow> rerr b = None \<and> bufsize b = 8192) \<and>
      (case body ts of None \<Rightarrow> False | Some rd \<Rightarrow> closed rd = 0))"

section \<open>Reading one line\<close>

lemma fill_loop_more:
  assumes "closed rd = 0" and "pending rd \<noteq> []" and "length (buffered b) < bufsize b"
  shows "\<exists>n. 0 < n \<and> n \<le> bufsize b - length (buffered b) \<and>
           fill_loop (Suc i) b rd =
             (b\<lparr>buffered := buffered b @ take n (pending rd)\<rparr>,
              rd\<lparr>reads := reads rd + 1, pending := drop n (pending rd),
                 deliveries := tl (deliveries rd)\<rparr>)"
proof -
  let ?n = "piece (deliveries rd) (bufsize b - length (buffered b))"
  from assms(3) piece_bounds [of "deliveries rd" "bufsize b - length (buffered b)"]
  have n: "0 < ?n" "?n \<le> bufsize b - length (buffered b)" by simp_all
  with assms have "fill_loop (Suc i) b rd =
             (b\<lparr>buffered := buffered b @ take ?n (pending rd)\<rparr>,
              rd\<lparr>reads := reads rd + 1, pending := drop ?n (pending rd),
                 deliveries := tl (deliveries rd)\<rparr>)"
    by (simp add: Read_body_def Let_def)
  with n show ?thesis by blast
qed

lemma fill_more:
  assumes "closed rd = 0" and "pending rd \<noteq> []" and "length (buffered b) < bufsize b"
  shows "\<exists>n. 0 < n \<and> n \<le> bufsize b - length (buffered b) \<and>
           fill b rd =
             (b\<lparr>buffered := buffered b @ take n (pending rd)\<rparr>,
              rd\<lparr>reads := reads rd + 1, pending := drop n (pending rd),
                 deliveries := tl (deliveries rd)\<rparr>)"
  using fill_loop_more [OF assms, of 99]
  by (simp add: fill_def maxConsecutiveEmptyReads_def)

lemma fill_loop_fails:
  assumes "0 < closed rd \<or> pending rd = []"
  shows "fill_loop (Suc i) b rd =
           (b\<lparr>rerr := Some (if 0 < closed rd then ErrBodyReadAfterClose else final rd)\<rparr>,
            rd\<lparr>reads := reads rd + 1\<rparr>)"
  using assms by (auto simp: Read_body_def Let_def)

lemma fill_fails:
  assumes "0 < closed rd \<or> pending rd = []"
  shows "fill b rd =
           (b\<lparr>rerr := Some (if 0 < closed rd then ErrBodyReadAfterClose else final rd)\<rparr>,
            rd\<lparr>reads := reads rd + 1\<rparr>)"
  using fill_loop_fails [OF assms, of 99]
  by (simp add: fill_def maxConsecutiveEmptyReads_def)

lemma split_at_delim:
  assumes "xs @ ys = l @ d # s" and "d \<notin> set l" and "d \<in> set xs"
  shows "\<exists>x. xs = l @ d # x \<and> s = x @ ys"
  using assms
  by (auto simp: append_eq_append_conv2 append_eq_Cons_conv Cons_eq_append_conv)

lemma ReadSlice_buffered:
  assumes "d \<in> set (buffered b)" and "buffered b @ pending rd = l @ d # s" and "d \<notin> set l"
  shows "ReadSlice b rd d = ((l @ [d], None), b\<lparr>buffered := drop (Suc (length l)) (buffered b)\<rparr>, rd)
         \<and> drop (Suc (length l)) (buffered b) @ pending rd = s"
proof -
  from split_at_delim [OF assms(2,3,1)] obtain x where x: "buffered b = l @ d # x" "s = x @ pending rd"
    by blast
  with assms(3) have "takeWhile (\<lambda>c. c \<noteq> d) (buffered b) = l"
    by (auto simp: takeWhile_tail)
  with x assms(1) show ?thesis
    by (simp add: ReadSlice.simps [of b rd d] Let_def)
qed

lemma ReadSlice_line:
  assumes "rerr b = None" and "closed rd = 0" and "buffered b @ pending rd = l @ d # s"
    and "d \<notin> set l" and "length l < bufsize b"
  shows "\<exists>b' rd'. ReadSlice b rd d = ((l @ [d], None), b', rd') \<and>
           rerr b' = None \<and> bufsize b' = bufsize b \<and> buffered b' @ pending rd' = s \<and>
           closed rd' = 0 \<and> final rd' = final rd \<and> close_result rd' = close_result rd"
  using assms
proof (induction b rd d rule: ReadSlice.induct)
  case (1 b rd d)
  note inv = "1.prems"
  show ?case
  proof (cases "d \<in> set (buffered b)")
    case True
    from ReadSlice_buffered [OF True inv(3,4)] inv(1,2) show ?thesis by simp
  next
    case False
    from False inv(3,4) have "\<exists>t. l = buffered b @ t"
      by (auto simp: append_eq_append_conv2 append_eq_Cons_conv Cons_eq_append_conv)
    then obtain t where t: "l = buffered b @ t" by blast
    with inv(3) have pend: "pending rd = t @ d # s" by simp
    from t inv(5) have lt: "length (buffered b) < bufsize b" by simp
    then have nf: "\<not> bufsize b \<le> length (buffered b)" by simp
    from pend have ne: "pending rd \<noteq> []" by auto
    from fill_more [OF inv(2) ne lt] obtain n where
      f: "fill b rd = (b\<lparr>buffered := buffered b @ take n (pending rd)\<rparr>,
              rd\<lparr>reads := reads rd + 1, pending := drop n (pending rd),
                 deliveries := tl (deliveries rd)\<rparr>)"
      by blast
    let ?b1 = "b\<lparr>buffered := buffered b @ take n (pending rd)\<rparr>"
    let ?rd1 = "rd\<lparr>reads := reads rd + 1, pending := drop n (pending rd),
                 deliveries := tl (deliveries rd)\<rparr>"
    from False inv(1) nf f have step: "ReadSlice b rd d = ReadSlice ?b1 ?rd1 d"
      by (simp add: ReadSlice.simps [of b rd d])
    from inv have i1: "rerr ?b1 = None" "closed ?rd1 = 0"
      "buffered ?b1 @ pending ?rd1 = l @ d # s" "d \<notin> set l" "length l < bufsize ?b1"
      by simp_all
    from "1.IH" [OF False inv(1) nf f [symmetric] i1] step show ?thesis by simp
  qed
qed

lemma Read_body_frame:
  "Read_body rd k = ((p, e), rd') \<Longrightarrow>
   closed rd' = closed rd \<and> final rd' = final rd \<and> close_result rd' = close_result rd"
  by (auto simp: Read_body_def Let_def split: if_splits)

lemma fill_loop_frame:
  "fill_loop i b rd = (b', rd') \<Longrightarrow>
   bufsize b' = bufsize b \<and> closed rd' = closed rd \<and> final rd' = final rd \<and>
   close_result rd' = close_result rd"
proof (induction i arbitrary: b rd)
  case 0
  then show ?case by auto
next
  case (Suc i)
  obtain p e rd1 where R: "Read_body rd (bufsize b - length (buffered b)) = ((p, e), rd1)"
    by (metis prod.exhaust)
  note fr = Read_body_frame [OF R]
  show ?case
  proof (cases "e = None \<and> p = []")
    case False
    with Suc.prems R fr show ?thesis
      by (cases e) auto
  next
    case True
    with Suc.prems R have "fill_loop i (b\<lparr>buffered := buffered b @ p\<rparr>) rd1 = (b', rd')"
      by simp
    from Suc.IH [OF this] fr show ?thesis by simp
  qed
qed

lemma fill_frame:
  "fill b rd = (b', rd') \<Longrightarrow>
   bufsize b' = bufsize b \<and> closed rd' = closed rd \<and> final rd' = final rd \<and>
   close_result rd' = close_result rd"
  unfolding fill_def by (rule fill_loop_frame)

lemma ReadSlice_frame:
  "ReadSlice b rd d = ((p, e), b', rd') \<Longrightarrow>
   bufsize b' = bufsize b \<and> closed rd' = closed rd \<and> final rd' = final rd \<and>
   close_result rd' = close_result rd \<and> (e = None \<longrightarrow> p \<noteq> [] \<and> last p = d)"
proof (induction b rd d rule: ReadSlice.induct)
  case (1 b rd d)
  show ?case
  proof (cases "d \<notin> set (buffered b) \<and> rerr b = None \<and> \<not> bufsize b \<le> length (buffered b)")
    case False
    with "1.prems" show ?thesis
      by (auto simp: ReadSlice.simps [of b rd d] Let_def split: if_splits option.splits)
  next
    case True
    obtain b1 rd1 where f: "fill b rd = (b1, rd1)" by (cases "fill b rd")
    from True f "1.prems" have "ReadSlice b1 rd1 d = ((p, e), b', rd')"
      by (simp add: ReadSlice.simps [of b rd d])
    from "1.IH" [OF _ _ _ f [symmetric] this] True fill_frame [OF f]
    show ?thesis by simp
  qed
qed

lemma ReadSlice_end:
  assumes "rerr b = None" and "closed rd = 0" and "d \<notin> set (buffered b @ pending rd)"
    and "length (buffered b @ pending rd) < bufsize b"
  shows "\<exists>p b' rd'. ReadSlice b rd d = ((p, Some (final rd)), b', rd')"
  using assms
proof (induction b rd d rule: ReadSlice.induct)
  case (1 b rd d)
  note inv = "1.prems"
  from inv have nd: "d \<notin> set (buffered b)" and lt: "length (buffered b) < bufsize b"
    by simp_all
  from lt have nf: "\<not> bufsize b \<le> length (buffered b)" by simp
  show ?case
  proof (cases "pending rd = []")
    case True
    with inv fill_fails [of rd b]
    have f: "fill b rd = (b\<lparr>rerr := Some (final rd)\<rparr>, rd\<lparr>reads := reads rd + 1\<rparr>)" by simp
    from nd inv(1) nf f have "ReadSlice b rd d =
        ReadSlice (b\<lparr>rerr := Some (final rd)\<rparr>) (rd\<lparr>reads := reads rd + 1\<rparr>) d"
      by (simp add: ReadSlice.simps [of b rd d])
    also from nd have "\<dots> = ((buffered b, Some (final rd)), b\<lparr>rerr := None, buffered := []\<rparr>,
          rd\<lparr>reads := reads rd + 1\<rparr>)"
      by (simp add: ReadSlice.simps [of "b\<lparr>rerr := Some (final rd)\<rparr>"])
    finally show ?thesis by blast
  next
    case False
    from fill_more [OF inv(2) False lt] obtain n where
      f: "fill b rd = (b\<lparr>buffered := buffered b @ take n (pending rd)\<rparr>,
              rd\<lparr>reads := reads rd + 1, pending := drop n (pending rd),
                 deliveries := tl (deliveries rd)\<rparr>)"
      by blast
    let ?b1 = "b\<lparr>buffered := buffered b @ take n (pending rd)\<rparr>"
    let ?rd1 = "rd\<lparr>reads := reads rd + 1, pending := drop n (pending rd),
                 deliveries := tl (deliveries rd)\<rparr>"
    from nd inv(1) nf f have step: "ReadSlice b rd d = ReadSlice ?b1 ?rd1 d"
      by (simp add: ReadSlice.simps [of b rd d])
    from inv have i1: "rerr ?b1 = None" "closed ?rd1 = 0"
      "d \<notin> set (buffered ?b1 @ pending ?rd1)"
      "length (buffered ?b1 @ pending ?rd1) < bufsize ?b1"
      by simp_all
    from "1.IH" [OF nd inv(1) nf f [symmetric] i1] step show ?thesis by simp
  qed
qed

text \<open>A line that does not fit the buffer makes \<open>ReadSlice\<close> fail.\<close>

lemma ReadSlice_full:
  assumes "rerr b = None" and "closed rd = 0" and "length (buffered b) \<le> bufsize b"
    and "d \<notin> set (take (bufsize b) (buffered b @ pending rd))"
    and "bufsize b \<le> length (buffered b @ pending rd)"
  shows "\<exists>p b' rd'. ReadSlice b rd d = ((p, Some ErrBufferFull), b', rd')"
  using assms
proof (induction b rd d rule: ReadSlice.induct)
  case (1 b rd d)
  note inv = "1.prems"
  from inv(3,4) have nd: "d \<notin> set (buffered b)" by simp
  show ?case
  proof (cases "bufsize b \<le> length (buffered b)")
    case True
    with nd inv(1) show ?thesis by (simp add: ReadSlice.simps [of b rd d])
  next
    case False
    then have lt: "length (buffered b) < bufsize b" by simp
    with inv(5) have ne: "pending rd \<noteq> []" by auto
    from fill_more [OF inv(2) ne lt] obtain n where n: "n \<le> bufsize b - length (buffered b)"
      and f: "fill b rd = (b\<lparr>buffered := buffered b @ take n (pending rd)\<rparr>,
              rd\<lparr>reads := reads rd + 1, pending := drop n (pending rd),
                 deliveries := tl (deliveries rd)\<rparr>)"
      by blast
    let ?b1 = "b\<lparr>buffered := buffered b @ take n (pending rd)\<rparr>"
    let ?rd1 = "rd\<lparr>reads := reads rd + 1, pending := drop n (pending rd),
                 deliveries := tl (deliveries rd)\<rparr>"
    from nd inv(1) False f have step: "ReadSlice b rd d = ReadSlice ?b1 ?rd1 d"
      by (simp add: ReadSlice.simps [of b rd d])
    from inv n lt have i1: "rerr ?b1 = None" "closed ?rd1 = 0"
      "length (buffered ?b1) \<le> bufsize ?b1"
      "d \<notin> set (take (bufsize ?b1) (buffered ?b1 @ pending ?rd1))"
      "bufsize ?b1 \<le> length (buffered ?b1 @ pending ?rd1)"
      by simp_all
    from "1.IH" [OF nd inv(1) False f [symmetric] i1] step show ?thesis by simp
  qed
qed

section \<open>One call of Next\<close>

lemma streamingE:
  assumes "streaming ts"
  obtains b rd where "r ts = Some b" "body ts = Some rd" "err ts = None" "rerr b = None"
    "bufsize b = 8192" "closed rd = 0"
  using assms by (auto simp: streaming_def split: option.splits)

lemma Next_line:
  assumes "streaming ts" and "content ts = l @ CR # s" and "CR \<notin> set l" and "length l < 8192"
  shows "\<exists>ts1. streaming ts1 \<and> content ts1 = s \<and> last_error ts1 = last_error ts \<and>
           closes ts1 = closes ts \<and>
           (if length l \<le> 1 then Next ts = Next ts1
            else Next ts = (Returns (Inr (l @ [CR])), ts1))"
proof -
  from assms(1) obtain b rd where ts: "r ts = Some b" "body ts = Some rd" "err ts = None"
    "rerr b = None" "bufsize b = 8192" "closed rd = 0"
    by (rule streamingE)
  from assms(2) ts have c: "buffered b @ pending rd = l @ CR # s" by (simp add: content_def)
  from assms(4) ts have "length l < bufsize b" by simp
  from ReadSlice_line [OF ts(4) ts(6) c assms(3) this]
  obtain b' rd' where rs: "ReadSlice b rd CR = ((l @ [CR], None), b', rd')"
    and inv: "rerr b' = None" "bufsize b' = bufsize b" "buffered b' @ pending rd' = s"
      "closed rd' = 0" "final rd' = final rd" "close_result rd' = close_result rd"
    by blast
  let ?ts1 = "ts\<lparr>body := Some rd', r := Some b'\<rparr>"
  from ts inv have s1: "streaming ?ts1" by (simp add: streaming_def)
  from inv have c1: "content ?ts1 = s" by (simp add: content_def)
  from ts inv have e1: "last_error ?ts1 = last_error ts" "closes ?ts1 = closes ts"
    by (simp_all add: last_error_def closes_def)
  from ts rs have nl: "Next_loop ts =
      (if length l \<le> 1 then Next_loop ?ts1 else (Returns (Inr (l @ [CR])), ?ts1))"
    by (simp add: Next_loop.simps [of ts])
  from ts have "Next ts = Next_loop ts" by (simp add: Next_def)
  moreover from ts have "Next ?ts1 = Next_loop ?ts1" by (simp add: Next_def)
  ultimately have "if length l \<le> 1 then Next ts = Next ?ts1
            else Next ts = (Returns (Inr (l @ [CR])), ?ts1)"
    using nl by simp
  with s1 c1 e1 show ?thesis by blast
qed

lemma Next_end:
  assumes "streaming ts" and "CR \<notin> set (content ts)" and "length (content ts) < 8192"
    and "last_error ts = Some e"
  shows "\<exists>ts1. Next ts = (Returns (Inl e), ts1) \<and> err ts1 = Some e \<and> closes ts1 = 1"
proof -
  from assms(1) obtain b rd where ts: "r ts = Some b" "body ts = Some rd" "err ts = None"
    "rerr b = None" "bufsize b = 8192" "closed rd = 0"
    by (rule streamingE)
  from assms(2,3) ts have c: "CR \<notin> set (buffered b @ pending rd)"
    "length (buffered b @ pending rd) < bufsize b" by (simp_all add: content_def)
  from assms(4) ts have e: "final rd = e" by (simp add: last_error_def)
  from ReadSlice_end [OF ts(4) ts(6) c]
  obtain p b' rd' where rs: "ReadSlice b rd CR = ((p, Some e), b', rd')" using e by blast
  from ReadSlice_frame [OF rs] ts have "closed rd' = 0" by simp
  with ts rs have "Next_loop ts = (Returns (Inl e),
      ts\<lparr>body := Some (rd'\<lparr>closed := 1\<rparr>), r := Some b', err := Some e\<rparr>)"
    by (simp add: Next_loop.simps [of ts] fatal_def Close_body_def Let_def)
  with ts show ?thesis by (simp add: Next_def closes_def)
qed

lemma Next_loop_returns:
  "Next_loop ts = (Returns (Inr p), ts1) \<Longrightarrow>
   2 < length p \<and> last p = CR \<and> err ts1 = err ts \<and> closes ts1 = closes ts"
proof (induction ts rule: Next_loop.induct)
  case (1 ts)
  from "1.prems" obtain b rd where ts: "r ts = Some b" "body ts = Some rd"
    by (auto simp: Next_loop.simps [of ts] split: option.splits)
  obtain q e b' rd' where rs: "ReadSlice b rd CR = ((q, e), b', rd')"
    by (metis prod.exhaust)
  note fr = ReadSlice_frame [OF rs]
  let ?ts' = "ts\<lparr>body := Some rd', r := Some b'\<rparr>"
  show ?case
  proof (cases e)
    case (Some x)
    with "1.prems" ts rs show ?thesis
      by (simp add: Next_loop.simps [of ts] split: prod.splits)
  next
    case None
    show ?thesis
    proof (cases "length q \<le> 2")
      case True
      with "1.prems" ts rs None have "Next_loop ?ts' = (Returns (Inr p), ts1)"
        by (simp add: Next_loop.simps [of ts])
      from "1.IH" [OF ts(1) ts(2) rs [symmetric] refl _ refl True this] None fr ts
      show ?thesis by (simp add: closes_def)
    next
      case False
      with "1.prems" ts rs None fr show ?thesis
        by (auto simp: Next_loop.simps [of ts] closes_def)
    qed
  qed
qed

lemma Next_loop_fails:
  "Next_loop ts = (Returns (Inl e), ts1) \<Longrightarrow>
   closes ts1 = closes ts + 1 \<and> err ts1 = (if err ts = None then Some e else err ts) \<and>
   body ts1 \<noteq> None"
proof (induction ts rule: Next_loop.induct)
  case (1 ts)
  from "1.prems" obtain b rd where ts: "r ts = Some b" "body ts = Some rd"
    by (auto simp: Next_loop.simps [of ts] split: option.splits)
  obtain q x b' rd' where rs: "ReadSlice b rd CR = ((q, x), b', rd')"
    by (metis prod.exhaust)
  note fr = ReadSlice_frame [OF rs]
  let ?ts' = "ts\<lparr>body := Some rd', r := Some b'\<rparr>"
  show ?case
  proof (cases x)
    case (Some y)
    with "1.prems" ts rs fr show ?thesis
      by (auto simp: Next_loop.simps [of ts] fatal_def Close_body_def closes_def Let_def)
  next
    case None
    show ?thesis
    proof (cases "length q \<le> 2")
      case True
      with "1.prems" ts rs None have "Next_loop ?ts' = (Returns (Inl e), ts1)"
        by (simp add: Next_loop.simps [of ts])
      from "1.IH" [OF ts(1) ts(2) rs [symmetric] refl _ refl True this] None fr ts
      show ?thesis by (simp add: closes_def)
    next
      case False
      with "1.prems" ts rs None show ?thesis
        by (simp add: Next_loop.simps [of ts])
    qed
  qed
qed

lemma Next_loop_panics:
  "Next_loop ts = (NilPanic, ts1) \<Longrightarrow> ts1 = ts \<and> (r ts = None \<or> body ts = None)"
proof (induction ts rule: Next_loop.induct)
  case (1 ts)
  show ?case
  proof (cases "r ts = None \<or> body ts = None")
    case True
    with "1.prems" show ?thesis
      by (auto simp: Next_loop.simps [of ts] split: option.splits)
  next
    case False
    then obtain b rd where ts: "r ts = Some b" "body ts = Some rd" by auto
    obtain q x b' rd' where rs: "ReadSlice b rd CR = ((q, x), b', rd')"
      by (metis prod.exhaust)
    let ?ts' = "ts\<lparr>body := Some rd', r := Some b'\<rparr>"
    show ?thesis
    proof (cases "x = None \<and> length q \<le> 2")
      case True
      with "1.prems" ts rs have "Next_loop ?ts' = (NilPanic, ts1)"
        by (simp add: Next_loop.simps [of ts])
      from "1.IH" [OF ts(1) ts(2) rs [symmetric] refl _ refl _ this] True
      show ?thesis by simp
    next
      case False
      with "1.prems" ts rs show ?thesis
        by (cases x) (auto simp: Next_loop.simps [of ts] split: prod.splits)
    qed
  qed
qed

section \<open>Sequences of calls\<close>

text \<open>
  A client drives a stream through its four exported methods. A call names the method
  and its arguments (for \<open>UnmarshalNext\<close>, the decoder and the target), a reply is what
  the method returned.
\<close>

datatype 'v call =
    CallNext
  | CallUnmarshalNext "string \<Rightarrow> 'v \<Rightarrow> error option \<times> 'v" 'v
  | CallErr
  | CallClose

datatype 'v reply =
    NextReturned "(error + string) outcome"
  | UnmarshalNextReturned "(error option \<times> 'v) outcome"
  | ErrReturned "error option"
  | CloseReturned "error option outcome"

fun do_call :: "'v call \<Rightarrow> Stream \<Rightarrow> 'v reply \<times> Stream" where
  "do_call CallNext ts = (case Next ts of (x, ts') \<Rightarrow> (NextReturned x, ts'))"
| "do_call (CallUnmarshalNext Unmarshal data) ts =
     (case UnmarshalNext Unmarshal data ts of (x, ts') \<Rightarrow> (UnmarshalNextReturned x, ts'))"
| "do_call CallErr ts = (ErrReturned (Err ts), ts)"
| "do_call CallClose ts = (case Close ts of (x, ts') \<Rightarrow> (CloseReturned x, ts'))"

fun do_calls :: "'v call list \<Rightarrow> Stream \<Rightarrow> 'v reply list \<times> Stream" where
  "do_calls [] ts = ([], ts)"
| "do_calls (c # cs) ts =
     (case do_call c ts of (x, ts') \<Rightarrow> (case do_calls cs ts' of (xs, ts'') \<Rightarrow> (x # xs, ts'')))"

text \<open>A reply reports the error \<open>e\<close> when the method returned exactly that error.\<close>

fun reports :: "error \<Rightarrow> 'v reply \<Rightarrow> bool" where
  "reports e (NextReturned x) = (x = Returns (Inl e))"
| "reports e (UnmarshalNextReturned x) =
     (case x of Returns (Some e', data) \<Rightarrow> e' = e | _ \<Rightarrow> False)"
| "reports e (ErrReturned x) = (x = Some e)"
| "reports e (CloseReturned x) = (x = Returns (Some e))"

text \<open>
  \<open>stream_of rd\<close> is the stream \<open>Open\<close> returns for a response of status 200 with the body
  \<open>rd\<close>; \<open>body_of s e\<close> is a fresh body that delivers the bytes \<open>s\<close> and then fails with
  \<open>e\<close>.
\<close>

definition stream_of :: "ReadCloser \<Rightarrow> Stream" where
  "stream_of rd = new_Stream\<lparr>body := Some rd, r := Some (NewReaderSize 8192)\<rparr>"

definition body_of :: "string \<Rightarrow> error \<Rightarrow> ReadCloser" where
  "body_of s e =
     \<lparr>pending = s, deliveries = [], final = e, closed = 0, close_result = None, reads = 0\<rparr>"

lemma call_failed:
  assumes "err ts = Some e"
  shows "snd (do_call c ts) = ts \<and> reports e (fst (do_call c ts))"
  using assms
  by (cases c) (simp_all add: Next_def UnmarshalNext_def Err_def Close_def)

lemma calls_failed:
  assumes "err ts = Some e"
  shows "snd (do_calls cs ts) = ts \<and> list_all (reports e) (fst (do_calls cs ts))"
proof (induction cs)
  case Nil
  show ?case by simp
next
  case (Cons c cs)
  from call_failed [OF assms, of c] obtain x where "do_call c ts = (x, ts)" "reports e x"
    by (cases "do_call c ts") auto
  with Cons show ?case by (cases "do_calls cs ts") simp
qed

section \<open>Facts about every call of Next\<close>

lemma streaming_stream_of: "streaming (stream_of rd) = (closed rd = 0)"
  by (simp add: streaming_def stream_of_def new_Stream_def NewReaderSize_def minReadBufferSize_def)

lemma content_stream_of: "content (stream_of rd) = pending rd"
  by (simp add: content_def stream_of_def new_Stream_def NewReaderSize_def)

lemma closes_stream_of: "closes (stream_of rd) = closed rd"
  by (simp add: closes_def stream_of_def new_Stream_def)

lemma last_error_stream_of: "last_error (stream_of rd) = Some (final rd)"
  by (simp add: last_error_def stream_of_def new_Stream_def)

lemma Next_returns:
  assumes "Next ts = (Returns (Inr p), ts1)"
  shows "2 < length p \<and> last p = CR \<and> err ts = None \<and> err ts1 = None \<and> closes ts1 = closes ts"
proof -
  from assms have e: "err ts = None" by (auto simp: Next_def split: option.splits)
  with assms have "Next_loop ts = (Returns (Inr p), ts1)" by (simp add: Next_def)
  from Next_loop_returns [OF this] e show ?thesis by simp
qed

lemma Next_fails:
  assumes "err ts = None" and "Next ts = (Returns (Inl e), ts1)"
  shows "err ts1 = Some e \<and> closes ts1 = closes ts + 1"
proof -
  from assms have "Next_loop ts = (Returns (Inl e), ts1)" by (simp add: Next_def)
  from Next_loop_fails [OF this] assms(1) show ?thesis by simp
qed

lemma Next_panics:
  assumes "Next ts = (NilPanic, ts1)"
  shows "ts1 = ts"
proof -
  from assms have e: "err ts = None" by (auto simp: Next_def split: option.splits)
  with assms have "Next_loop ts = (NilPanic, ts1)" by (simp add: Next_def)
  from Next_loop_panics [OF this] show ?thesis by simp
qed

text \<open>
  A fresh stream whose first 8192 bytes hold no delimiter fails with \<open>ErrBufferFull\<close>: a
  record has to fit the buffer together with its delimiter.
\<close>

lemma Next_line_too_long:
  assumes "closed rd = 0" and "CR \<notin> set (take 8192 (pending rd))" and "8192 \<le> length (pending rd)"
  shows "fst (Next (stream_of rd)) = Returns (Inl ErrBufferFull) \<and>
         err (snd (Next (stream_of rd))) = Some ErrBufferFull"
proof -
  let ?b = "NewReaderSize 8192"
  have b: "rerr ?b = None" "buffered ?b = []" "bufsize ?b = 8192"
    by (simp_all add: NewReaderSize_def minReadBufferSize_def)
  with assms ReadSlice_full [of ?b rd CR]
  obtain p b' rd' where "ReadSlice ?b rd CR = ((p, Some ErrBufferFull), b', rd')" by auto
  then show ?thesis
    by (simp add: Next_def stream_of_def new_Stream_def Next_loop.simps fatal_def Let_def
        split: option.splits)
qed

lemma do_call_open:
  assumes "err ts = None" and "c \<noteq> CallClose"
  shows "closes (snd (do_call c ts)) =
           closes ts + (if err (snd (do_call c ts)) = None then 0 else 1)"
proof -
  have n: "closes (snd (Next ts)) = closes ts + (if err (snd (Next ts)) = None then 0 else 1)"
  proof (cases "Next ts")
    case (Pair x ts1)
    show ?thesis
    proof (cases x)
      case NilPanic
      with Pair Next_panics [of ts ts1] assms(1) show ?thesis by simp
    next
      case (Returns y)
      show ?thesis
      proof (cases y)
        case (Inl e)
        with Pair Returns Next_fails [OF assms(1), of e ts1] show ?thesis by simp
      next
        case (Inr p)
        with Pair Returns Next_returns [of ts p ts1] show ?thesis by simp
      qed
    qed
  qed
  have u: "snd (UnmarshalNext U d ts) = snd (Next ts)"
    for U :: "string \<Rightarrow> 'a \<Rightarrow> error option \<times> 'a" and d
    by (auto simp: UnmarshalNext_def split: prod.splits outcome.splits sum.splits)
  from assms n u show ?thesis
    by (cases c) (simp_all add: Err_def case_prod_beta)
qed

lemma do_calls_open:
  assumes "err ts = None" and "CallClose \<notin> set cs"
  shows "closes (snd (do_calls cs ts)) =
           closes ts + (if err (snd (do_calls cs ts)) = None then 0 else 1)"
  using assms
proof (induction cs arbitrary: ts)
  case Nil
  then show ?case by simp
next
  case (Cons c cs)
  obtain x ts1 where c: "do_call c ts = (x, ts1)" by (cases "do_call c ts")
  from Cons.prems have nc: "c \<noteq> CallClose" "CallClose \<notin> set cs" by auto
  from do_call_open [OF Cons.prems(1) nc(1)] c
  have c1: "closes ts1 = closes ts + (if err ts1 = None then 0 else 1)" by simp
  show ?case
  proof (cases "err ts1")
    case None
    from Cons.IH [OF None nc(2)] c c1 None show ?thesis
      by (simp add: case_prod_beta)
  next
    case (Some e)
    from calls_failed [OF Some, of cs] c c1 Some show ?thesis
      by (cases "do_calls cs ts1") simp
  qed
qed

section \<open>Lines on the wire\<close>

text \<open>
  The bytes of a list of lines on the wire: every line is followed by the delimiter. The
  lines that \<open>Next\<close> treats as records are those of at least two bytes; \<open>Nexts n\<close> is \<open>n\<close>
  calls of \<open>Next\<close> in a row, with their results in order.
\<close>

definition wire :: "string list \<Rightarrow> string" where
  "wire ls = concat (map (\<lambda>l. l @ [CR]) ls)"

definition records :: "string list \<Rightarrow> string list" where
  "records ls = filter (\<lambda>l. 2 \<le> length l) ls"

fun Nexts :: "nat \<Rightarrow> Stream \<Rightarrow> (error + string) outcome list \<times> Stream" where
  "Nexts 0 ts = ([], ts)"
| "Nexts (Suc n) ts =
     (case Next ts of (x, ts') \<Rightarrow> (case Nexts n ts' of (xs, ts'') \<Rightarrow> (x # xs, ts'')))"

lemma Next_skips:
  assumes "streaming ts" and "content ts = wire ks @ s"
    and "\<forall>k\<in>set ks. CR \<notin> set k \<and> length k \<le> 1"
  shows "\<exists>ts1. streaming ts1 \<and> content ts1 = s \<and> last_error ts1 = last_error ts \<and>
           closes ts1 = closes ts \<and> Next ts = Next ts1"
  using assms
proof (induction ks arbitrary: ts)
  case Nil
  then show ?case by (auto simp: wire_def)
next
  case (Cons k ks)
  from Cons.prems have c: "content ts = k @ CR # (wire ks @ s)"
    and k: "CR \<notin> set k" "length k < 8192" "length k \<le> 1"
    and ks: "\<forall>k\<in>set ks. CR \<notin> set k \<and> length k \<le> 1"
    by (simp_all add: wire_def)
  from Next_line [OF Cons.prems(1) c k(1,2)] k(3)
  obtain ts1 where ts1: "streaming ts1" "content ts1 = wire ks @ s"
    "last_error ts1 = last_error ts" "closes ts1 = closes ts" "Next ts = Next ts1"
    by auto
  from Cons.IH [OF ts1(1,2) ks] ts1 show ?case by auto
qed

lemma Next_record:
  assumes "streaming ts" and "content ts = l @ CR # s" and "CR \<notin> set l" and "2 \<le> length l"
    and "length l < 8192"
  shows "fst (Next ts) = Returns (Inr (l @ [CR])) \<and> content (snd (Next ts)) = s \<and>
         streaming (snd (Next ts))"
  using Next_line [OF assms(1,2,3,5)] assms(4) by auto

lemma Next_at_end:
  assumes "streaming ts" and "CR \<notin> set (content ts)" and "length (content ts) < 8192"
    and "last_error ts = Some e"
  shows "fst (Next ts) = Returns (Inl e) \<and> err (snd (Next ts)) = Some e"
  using Next_end [OF assms] by auto

lemma Nexts_cong:
  assumes "Next ts = Next ts1"
  shows "Nexts (Suc n) ts = Nexts (Suc n) ts1"
  using assms by simp

section \<open>Reading a whole body\<close>

lemma Reader_Read_frame:
  "Reader_Read b rd n = ((p, e), b', rd') \<Longrightarrow>
   closed rd' = closed rd \<and> final rd' = final rd \<and> close_result rd' = close_result rd"
  by (auto simp: Reader_Read_def Read_body_def Let_def split: if_splits option.splits)

lemma ReadAll_loop_frame:
  "ReadAll_loop b rd acc = (res, b', rd') \<Longrightarrow>
   closed rd' = closed rd \<and> final rd' = final rd \<and> close_result rd' = close_result rd"
proof (induction b rd acc rule: ReadAll_loop.induct)
  case (1 b rd acc)
  obtain p e b1 rd1 where R: "Reader_Read b rd MinRead = ((p, e), b1, rd1)"
    by (metis prod.exhaust)
  note fr = Reader_Read_frame [OF R]
  show ?case
  proof (cases e)
    case (Some x)
    with "1.prems" R fr show ?thesis
      by (auto simp: ReadAll_loop.simps [of b rd acc])
  next
    case None
    with "1.prems" R have "ReadAll_loop b1 rd1 (acc @ p) = (res, b', rd')"
      by (simp add: ReadAll_loop.simps [of b rd acc])
    from "1.IH" [OF R [symmetric] refl _ refl this] None fr show ?thesis by simp
  qed
qed

lemma take_drop_append: "take n xs @ drop n xs @ ys = xs @ ys"
  by (metis append.assoc append_take_drop_id)

lemma ReadAll_loop_all:
  assumes "rerr b = None" and "closed rd = 0"
  shows "\<exists>b' rd'. ReadAll_loop b rd acc =
           ((acc @ buffered b @ pending rd, if final rd = EOF then None else Some (final rd)),
            b', rd') \<and> pending rd' = [] \<and> buffered b' = []"
  using assms
proof (induction b rd acc rule: ReadAll_loop.induct)
  case (1 b rd acc)
  note inv = "1.prems"
  have m: "0 < MinRead" by (simp add: MinRead_def)
  show ?case
  proof (cases "buffered b = []")
    case False
    let ?b1 = "b\<lparr>buffered := drop MinRead (buffered b)\<rparr>"
    from False m have R: "Reader_Read b rd MinRead = ((take MinRead (buffered b), None), ?b1, rd)"
      by (simp add: Reader_Read_def)
    from inv have "rerr ?b1 = None" by simp
    from "1.IH" [OF R [symmetric] refl _ refl this inv(2)] R show ?thesis
      by (simp add: ReadAll_loop.simps [of b rd acc] take_drop_append cong: if_cong)
  next
    case True
    note empty = this
    show ?thesis
    proof (cases "pending rd = []")
      case True
      with empty inv m have "\<exists>b1 rd1. Reader_Read b rd MinRead = (([], Some (final rd)), b1, rd1)
          \<and> pending rd1 = [] \<and> buffered b1 = []"
        by (auto simp: Reader_Read_def Read_body_def Let_def)
      with empty True show ?thesis
        by (auto simp: ReadAll_loop.simps [of b rd acc])
    next
      case False
      show ?thesis
      proof (cases "bufsize b \<le> MinRead")
        case True
        let ?n = "piece (deliveries rd) MinRead"
        let ?rd1 = "rd\<lparr>reads := reads rd + 1, pending := drop ?n (pending rd),
                      deliveries := tl (deliveries rd)\<rparr>"
        from True False empty inv m
        have R: "Reader_Read b rd MinRead = ((take ?n (pending rd), None), b, ?rd1)"
          by (simp add: Reader_Read_def Read_body_def Let_def)
        from inv have "closed ?rd1 = 0" by simp
        from "1.IH" [OF R [symmetric] refl _ refl inv(1) this] R empty show ?thesis
          by (simp add: ReadAll_loop.simps [of b rd acc] take_drop_append cong: if_cong)
      next
        case large: False
        let ?n = "piece (deliveries rd) (bufsize b)"
        let ?p = "take ?n (pending rd)"
        let ?b1 = "b\<lparr>buffered := drop MinRead ?p, rerr := None\<rparr>"
        let ?rd1 = "rd\<lparr>reads := reads rd + 1, pending := drop ?n (pending rd),
                      deliveries := tl (deliveries rd)\<rparr>"
        from large m piece_bounds [of "deliveries rd" "bufsize b"] have "0 < ?n" by simp
        with False have "?p \<noteq> []" by simp
        with large False empty inv m
        have R: "Reader_Read b rd MinRead = ((take MinRead ?p, None), ?b1, ?rd1)"
          by (simp add: Reader_Read_def Read_body_def Let_def)
        from inv have i: "rerr ?b1 = None" "closed ?rd1 = 0" by simp_all
        have "take MinRead ?p @ drop MinRead ?p @ drop ?n (pending rd) = pending rd"
          by (metis append.assoc append_take_drop_id)
        with "1.IH" [OF R [symmetric] refl _ refl i] R empty show ?thesis
          by (simp add: ReadAll_loop.simps [of b rd acc] cong: if_cong del: take_take)
      qed
    qed
  qed
qed

lemma ReadAll_all:
  assumes "closed rd = 0"
  shows "\<exists>b' rd'. ReadAll (NewReaderSize n) rd =
           ((pending rd, if final rd = EOF then None else Some (final rd)), b', rd') \<and>
           pending rd' = [] \<and> closed rd' = 0"
proof -
  have "rerr (NewReaderSize n) = None" "buffered (NewReaderSize n) = []"
    by (simp_all add: NewReaderSize_def)
  with ReadAll_loop_all [OF _ assms, of "NewReaderSize n" "[]"]
  obtain b' rd' where r: "ReadAll_loop (NewReaderSize n) rd [] =
           ((pending rd, if final rd = EOF then None else Some (final rd)), b', rd')"
    "pending rd' = []"
    by auto
  from ReadAll_loop_frame [OF r(1)] assms r show ?thesis
    by (simp add: ReadAll_def)
qed

section \<open>What Open does\<close>

lemma update_fresh: "k \<notin> fst ` set al \<Longrightarrow> AList.update k v al = al @ [(k, v)]"
  by (induction al) auto

lemma fold_update_distinct:
  "distinct (map fst (acc @ es)) \<Longrightarrow>
   fold (\<lambda>(key, values). AList.update key values) es acc = acc @ es"
proof (induction es arbitrary: acc)
  case Nil
  show ?case by simp
next
  case (Cons x es)
  obtain k v where x: "x = (k, v)" by (cases x)
  from Cons.prems x have "k \<notin> fst ` set acc" by auto
  then have u: "AList.update k v acc = acc @ [(k, v)]" by (rule update_fresh)
  from Cons.prems x have "distinct (map fst ((acc @ [(k, v)]) @ es))" by simp
  from Cons.IH [OF this] u x show ?case by simp
qed

lemma fold_store:
  "pc < length h1 \<Longrightarrow>
   fold (\<lambda>(key, values) hp. hp[pc := AList.update key values (hp ! pc)]) es h1 =
   h1[pc := fold (\<lambda>(key, values). AList.update key values) es (h1 ! pc)]"
proof (induction es arbitrary: h1)
  case Nil
  show ?case by simp
next
  case (Cons x es)
  obtain k v where x: "x = (k, v)" by (cases x)
  from Cons.prems have "pc < length (h1[pc := AList.update k v (h1 ! pc)])" by simp
  from Cons.IH [OF this] Cons.prems x show ?case by simp
qed

text \<open>
  The form \<open>Open\<close> posts is the signed copy of the caller's parameters; the store it
  leaves is the caller's store with that one new map object at the end.
\<close>

definition posted_form ::
  "('c \<Rightarrow> 'a \<Rightarrow> string \<Rightarrow> string \<Rightarrow> Values \<Rightarrow> Values) \<Rightarrow> 'c \<Rightarrow> 'a \<Rightarrow> string \<Rightarrow> nat \<Rightarrow> store \<Rightarrow> Values" where
  "posted_form SignParam oauthClient accessToken urlStr params h =
     SignParam oauthClient accessToken ''POST'' urlStr
       (fold (\<lambda>(key, values). AList.update key values) (entries h params) [])"

definition store_after ::
  "('c \<Rightarrow> 'a \<Rightarrow> string \<Rightarrow> string \<Rightarrow> Values \<Rightarrow> Values) \<Rightarrow> 'c \<Rightarrow> 'a \<Rightarrow> string \<Rightarrow> nat \<Rightarrow> store \<Rightarrow> store" where
  "store_after SignParam oauthClient accessToken urlStr params h =
     h @ [posted_form SignParam oauthClient accessToken urlStr params h]"

lemma Open_unfold:
  "Open SignParam PostForm oauthClient accessToken urlStr params h =
     (case PostForm urlStr (posted_form SignParam oauthClient accessToken urlStr params h) of
        Inl e \<Rightarrow> (Inl e, None, store_after SignParam oauthClient accessToken urlStr params h)
      | Inr resp \<Rightarrow>
          if RespStatusCode resp \<noteq> 200
          then (Inl (HTTPStatus \<lparr>StatusCode = RespStatusCode resp,
                      Message = fst (fst (ReadAll (NewReaderSize 8192) (RespBody resp)))\<rparr>),
                Some (snd (snd (ReadAll (NewReaderSize 8192) (RespBody resp)))),
                store_after SignParam oauthClient accessToken urlStr params h)
          else (Inr (stream_of (RespBody resp)), Some (RespBody resp),
                store_after SignParam oauthClient accessToken urlStr params h))"
proof -
  have "length h < length (h @ [[]])" by simp
  note f = fold_store [OF this, of "entries h params"]
  show ?thesis
    by (simp add: Open_def Let_def f store_after_def posted_form_def fatal_def new_Stream_def
        stream_of_def split: sum.splits prod.splits)
qed

text \<open>On status 200 \<open>Open\<close> returns the stream \<open>stream_of\<close> describes.\<close>

lemma Open_returns_stream:
  assumes "PostForm urlStr (posted_form SignParam oauthClient accessToken urlStr params h) = Inr resp"
    and "RespStatusCode resp = 200"
  shows "fst (Open SignParam PostForm oauthClient accessToken urlStr params h) =
           Inr (stream_of (RespBody resp))"
  using assms by (simp add: Open_unfold)

section \<open>The claims\<close>

text \<open>
  Claim C2. Once the permanent error of a stream is set, no later operation changes or
  clears it: any sequence of \<open>Next\<close>, \<open>UnmarshalNext\<close>, \<open>Err\<close> and \<open>Close\<close> calls leaves the
  whole stream as it was, \<open>fatal\<close> keeps the first error, and every later \<open>Next\<close> returns
  that error at once, with no further read of the body.
\<close>

theorem sticky_error_is_permanent:
  assumes "err ts = Some e"
  shows "snd (do_calls cs ts) = ts \<and> err (snd (do_calls cs ts)) = Some e \<and>
         err (snd (fatal e' ts)) = Some e \<and>
         Next (snd (do_calls cs ts)) = (Returns (Inl e), snd (do_calls cs ts)) \<and>
         reads_made (snd (Next (snd (do_calls cs ts)))) = reads_made ts"
  using assms calls_failed [OF assms, of cs]
  by (simp add: Next_def fatal_def Let_def split: option.splits)

text \<open>A stream that failed with \<open>EOF\<close>.\<close>

definition failed_example :: Stream where
  "failed_example = (stream_of (body_of [] EOF))\<lparr>err := Some EOF\<rparr>"

theorem sticky_error_is_permanent_witness:
  "err failed_example = Some EOF \<and>
   snd (do_calls [CallNext, CallClose, CallErr, CallUnmarshalNext (\<lambda>p v. (None, v)) (), CallNext]
         failed_example) = failed_example \<and>
   err (snd (fatal ErrBufferFull failed_example)) = Some EOF \<and>
   Next failed_example = (Returns (Inl EOF), failed_example)"
proof -
  have e: "err failed_example = Some EOF" by (simp add: failed_example_def)
  from sticky_error_is_permanent [OF e, of "[CallNext, CallClose, CallErr, CallUnmarshalNext (\<lambda>p v. (None, v)) (), CallNext]" ErrBufferFull]
    sticky_error_is_permanent [OF e, of "[] :: unit call list" ErrBufferFull]
  show ?thesis using e by simp
qed

text \<open>
  Claim C6. \<open>Close\<close> on a stream with a permanent error returns that error and does
  nothing to the body; \<open>Close\<close> on a stream without one closes the body exactly once and
  returns what that close returned.
\<close>

theorem Close_returns:
  "(err ts = Some e \<longrightarrow> Close ts = (Returns (Some e), ts)) \<and>
   (err ts = None \<and> body ts = Some rd \<longrightarrow>
      fst (Close ts) = Returns (close_result rd) \<and>
      snd (Close ts) = ts\<lparr>body := Some (rd\<lparr>closed := closed rd + 1\<rparr>)\<rparr> \<and>
      closes (snd (Close ts)) = closes ts + 1 \<and>
      reads_made (snd (Close ts)) = reads_made ts)"
  by (simp add: Close_def Close_body_def closes_def reads_made_def)

text \<open>An open stream whose body reports an error when it is closed.\<close>

definition open_example :: Stream where
  "open_example = stream_of ((body_of ''abc'' EOF)\<lparr>close_result := Some (OtherError ''close failed'')\<rparr>)"

theorem Close_returns_witness:
  "Close failed_example = (Returns (Some EOF), failed_example) \<and>
   fst (Close open_example) = Returns (Some (OtherError ''close failed'')) \<and>
   closes (snd (Close open_example)) = 1 \<and> closes open_example = 0 \<and>
   closes (snd (Close failed_example)) = 0"
  using Close_returns [of failed_example EOF]
    Close_returns [of open_example _ "(body_of ''abc'' EOF)\<lparr>close_result := Some (OtherError ''close failed'')\<rparr>"]
  by (simp add: failed_example_def open_example_def stream_of_def body_of_def new_Stream_def closes_def)

text \<open>
  Claim C7. A decode failure in \<open>UnmarshalNext\<close> is returned to the caller and changes
  nothing else: the stream is left exactly as \<open>Next\<close> left it, with no permanent error and
  a body that was not closed, so the next call reads the next record as usual. When
  \<open>Next\<close> fails, \<open>UnmarshalNext\<close> returns its error and the target is untouched, whatever the
  decoder is.
\<close>

theorem UnmarshalNext_decode_error:
  "(Next ts = (Returns (Inr p), ts1) \<longrightarrow>
      UnmarshalNext Unmarshal data ts = (Returns (Unmarshal p data), ts1) \<and>
      err ts1 = None \<and> closes ts1 = closes ts) \<and>
   (streaming ts \<and> content ts = l1 @ CR # l2 @ CR # s \<and>
    CR \<notin> set l1 \<and> 2 \<le> length l1 \<and> length l1 < 8192 \<and>
    CR \<notin> set l2 \<and> 2 \<le> length l2 \<and> length l2 < 8192 \<and>
    fst (Unmarshal (l1 @ [CR]) data) = Some e \<longrightarrow>
      fst (UnmarshalNext Unmarshal data ts) = Returns (Some e, snd (Unmarshal (l1 @ [CR]) data)) \<and>
      streaming (snd (UnmarshalNext Unmarshal data ts)) \<and>
      closes (snd (UnmarshalNext Unmarshal data ts)) = 0 \<and>
      fst (Next (snd (UnmarshalNext Unmarshal data ts))) = Returns (Inr (l2 @ [CR])) \<and>
      fst (UnmarshalNext U2 d2 (snd (UnmarshalNext Unmarshal data ts))) =
        Returns (U2 (l2 @ [CR]) d2)) \<and>
   (Next ts = (Returns (Inl e), ts1) \<longrightarrow>
      UnmarshalNext Unmarshal data ts = (Returns (Some e, data), ts1))"
proof (intro conjI impI)
  assume n: "Next ts = (Returns (Inr p), ts1)"
  then show "UnmarshalNext Unmarshal data ts = (Returns (Unmarshal p data), ts1)"
    by (simp add: UnmarshalNext_def)
  from Next_returns [OF n] show "err ts1 = None" and "closes ts1 = closes ts" by simp_all
next
  assume "Next ts = (Returns (Inl e), ts1)"
  then show "UnmarshalNext Unmarshal data ts = (Returns (Some e, data), ts1)"
    by (simp add: UnmarshalNext_def)
next
  assume a: "streaming ts \<and> content ts = l1 @ CR # l2 @ CR # s \<and>
    CR \<notin> set l1 \<and> 2 \<le> length l1 \<and> length l1 < 8192 \<and>
    CR \<notin> set l2 \<and> 2 \<le> length l2 \<and> length l2 < 8192 \<and>
    fst (Unmarshal (l1 @ [CR]) data) = Some e"
  then have st: "streaming ts" and c: "content ts = l1 @ CR # (l2 @ CR # s)"
    and l1: "CR \<notin> set l1" "length l1 < 8192" "\<not> length l1 \<le> 1"
    and l2: "CR \<notin> set l2" "length l2 < 8192" "\<not> length l2 \<le> 1"
    and d: "fst (Unmarshal (l1 @ [CR]) data) = Some e" by simp_all
  from Next_line [OF st c l1(1,2)] l1(3)
  obtain ts1 where ts1: "streaming ts1" "content ts1 = l2 @ CR # s" "closes ts1 = closes ts"
    "Next ts = (Returns (Inr (l1 @ [CR])), ts1)" by auto
  from Next_line [OF ts1(1,2) l2(1,2)] l2(3)
  obtain ts2 where ts2: "Next ts1 = (Returns (Inr (l2 @ [CR])), ts2)" by auto
  from ts1(4) have u: "UnmarshalNext Unmarshal data ts = (Returns (Unmarshal (l1 @ [CR]) data), ts1)"
    by (simp add: UnmarshalNext_def)
  from st have c0: "closes ts = 0" by (auto simp: streaming_def closes_def split: option.splits)
  from u d show "fst (UnmarshalNext Unmarshal data ts) = Returns (Some e, snd (Unmarshal (l1 @ [CR]) data))"
    by (cases "Unmarshal (l1 @ [CR]) data") simp
  from u ts1 show "streaming (snd (UnmarshalNext Unmarshal data ts))" by simp
  from u ts1 c0 show "closes (snd (UnmarshalNext Unmarshal data ts)) = 0" by simp
  from u ts2 show "fst (Next (snd (UnmarshalNext Unmarshal data ts))) = Returns (Inr (l2 @ [CR]))"
    by simp
  from u ts2 show "fst (UnmarshalNext U2 d2 (snd (UnmarshalNext Unmarshal data ts))) =
        Returns (U2 (l2 @ [CR]) d2)"
    by (simp add: UnmarshalNext_def)
qed

text \<open>A decoder that rejects the line \<open>not-json\<close> and stores every other line.\<close>

definition decode_example :: "string \<Rightarrow> string \<Rightarrow> error option \<times> string" where
  "decode_example p data =
     (if p = ''not-json'' @ [CR] then (Some (OtherError ''invalid character''), data)
      else (None, p))"

theorem UnmarshalNext_decode_error_witness:
  \<open>fst (UnmarshalNext decode_example ''old''
          (stream_of (body_of (''not-json'' @ CR # ''{"id":2}'' @ CR # []) EOF))) =
     Returns (Some (OtherError ''invalid character''), ''old'') \<and>
   fst (UnmarshalNext decode_example ''old''
          (snd (UnmarshalNext decode_example ''old''
                  (stream_of (body_of (''not-json'' @ CR # ''{"id":2}'' @ CR # []) EOF))))) =
     Returns (None, ''{"id":2}'' @ [CR]) \<and>
   closes (snd (UnmarshalNext decode_example ''old''
                  (stream_of (body_of (''not-json'' @ CR # ''{"id":2}'' @ CR # []) EOF)))) = 0 \<and>
   fst (UnmarshalNext decode_example ''old'' (stream_of (body_of [] EOF))) =
     Returns (Some EOF, ''old'')\<close>
proof -
  let ?ts = \<open>stream_of (body_of (''not-json'' @ CR # ''{"id":2}'' @ CR # []) EOF)\<close>
  let ?tb = "stream_of (body_of [] EOF)"
  have h: \<open>streaming ?ts \<and> content ?ts = ''not-json'' @ CR # ''{"id":2}'' @ CR # [] \<and>
    CR \<notin> set ''not-json'' \<and> 2 \<le> length ''not-json'' \<and> length ''not-json'' < 8192 \<and>
    CR \<notin> set ''{"id":2}'' \<and> 2 \<le> length ''{"id":2}'' \<and> length ''{"id":2}'' < 8192 \<and>
    fst (decode_example (''not-json'' @ [CR]) ''old'') = Some (OtherError ''invalid character'')\<close>
    by (simp add: streaming_stream_of content_stream_of body_of_def decode_example_def CR_def)
  have "fst (Next ?tb) = Returns (Inl EOF)" by code_simp
  then have n: "Next ?tb = (Returns (Inl EOF), snd (Next ?tb))" by (cases "Next ?tb") simp
  note p2 = UnmarshalNext_decode_error [where ts = ?ts and Unmarshal = decode_example
      and data = \<open>''old''\<close> and ?l1.0 = \<open>''not-json''\<close> and ?l2.0 = \<open>''{"id":2}''\<close> and s = "[]"
      and e = \<open>OtherError ''invalid character''\<close> and ?U2.0 = decode_example and ?d2.0 = \<open>''old''\<close>,
      THEN conjunct2, THEN conjunct1, THEN mp, OF h]
  note p3 = UnmarshalNext_decode_error [where ts = ?tb and ?ts1.0 = "snd (Next ?tb)"
      and Unmarshal = decode_example and data = \<open>''old''\<close> and e = EOF,
      THEN conjunct2, THEN conjunct2, THEN mp, OF n]
  from p2 p3 show ?thesis
    by (simp add: decode_example_def CR_def)
qed

text \<open>
  Claim C5 (as amended). When the read of \<open>Next\<close> fails on a stream without a permanent
  error, the error becomes the permanent error and the body is closed once by that step;
  after it no call changes the stream, so the body is never closed again, and every later
  \<open>Next\<close>, \<open>UnmarshalNext\<close>, \<open>Err\<close> and \<open>Close\<close> reports that error. When no \<open>Close\<close> was called
  before the failure, this is the only close since the stream was opened.
\<close>

theorem read_failure_is_permanent:
  assumes "err ts = None" and "Next ts = (Returns (Inl e), ts1)"
  shows "err ts1 = Some e \<and> closes ts1 = closes ts + 1 \<and>
         snd (do_calls cs ts1) = ts1 \<and> list_all (reports e) (fst (do_calls cs ts1)) \<and>
         (err ts0 = None \<and> CallClose \<notin> set cs0 \<and> snd (do_calls cs0 ts0) = ts \<longrightarrow>
            closes ts1 = closes ts0 + 1)"
proof -
  note f = Next_fails [OF assms]
  moreover from f have "snd (do_calls cs ts1) = ts1 \<and> list_all (reports e) (fst (do_calls cs ts1))"
    by (simp add: calls_failed)
  moreover have "closes ts1 = closes ts0 + 1"
    if "err ts0 = None" "CallClose \<notin> set cs0" "snd (do_calls cs0 ts0) = ts"
    using do_calls_open [OF that(1,2)] that(3) assms(1) f by simp
  ultimately show ?thesis by blast
qed

theorem read_failure_is_permanent_witness:
  "err (snd (Next (snd (do_calls [CallNext, CallErr :: string call]
                          (stream_of (body_of (''hello'' @ [CR]) EOF)))))) = Some EOF \<and>
   closes (snd (Next (snd (do_calls [CallNext, CallErr :: string call]
                          (stream_of (body_of (''hello'' @ [CR]) EOF)))))) = 1 \<and>
   list_all (reports EOF)
     (fst (do_calls [CallNext, CallUnmarshalNext decode_example ''old'', CallErr, CallClose]
            (snd (Next (snd (do_calls [CallNext, CallErr :: string call]
                          (stream_of (body_of (''hello'' @ [CR]) EOF)))))))) \<and>
   closes (snd (do_calls [CallNext, CallUnmarshalNext decode_example ''old'', CallErr, CallClose]
            (snd (Next (snd (do_calls [CallNext, CallErr :: string call]
                          (stream_of (body_of (''hello'' @ [CR]) EOF)))))))) = 1"
proof -
  let ?start = "stream_of (body_of (''hello'' @ [CR]) EOF)"
  let ?hist = "[CallNext, CallErr :: string call]"
  let ?ts = "snd (do_calls ?hist ?start)"
  let ?cs = "[CallNext, CallUnmarshalNext decode_example ''old'', CallErr, CallClose]"
  have e: "err ?ts = None" by code_simp
  have "fst (Next ?ts) = Returns (Inl EOF)" by code_simp
  then have n: "Next ?ts = (Returns (Inl EOF), snd (Next ?ts))" by (cases "Next ?ts") simp
  have h: "err ?start = None \<and> CallClose \<notin> set ?hist \<and> snd (do_calls ?hist ?start) = ?ts"
    by (simp add: stream_of_def new_Stream_def)
  note t = read_failure_is_permanent [OF e n, where cs = ?cs and ?ts0.0 = ?start and ?cs0.0 = ?hist]
  from t [THEN conjunct2, THEN conjunct2, THEN conjunct2, THEN conjunct2, THEN mp, OF h]
    t [THEN conjunct1] t [THEN conjunct2, THEN conjunct2, THEN conjunct1]
    t [THEN conjunct2, THEN conjunct2, THEN conjunct2, THEN conjunct1]
  show ?thesis by (simp add: closes_stream_of body_of_def)
qed

text \<open>
  The claim as stated has the body closed exactly once over the life of the stream. A
  \<open>Close\<close> on the open stream closes the body and leaves the stream open; the read of the
  next \<open>Next\<close> fails and \<open>fatal\<close> closes the body a second time.
\<close>

theorem close_then_read_failure_counterexample:
  "err (snd (Close (stream_of (body_of [] EOF)))) = None \<and>
   fst (Next (snd (Close (stream_of (body_of [] EOF))))) = Returns (Inl ErrBodyReadAfterClose) \<and>
   closes (snd (Next (snd (Close (stream_of (body_of [] EOF)))))) = 2"
  by code_simp

text \<open>
  Claim C4. \<open>Next\<close> never returns a slice of at most 2 bytes: whatever it returns is
  longer. A run of keepalive lines (each at most one byte before its delimiter), however
  long, is skipped within one call: the call goes on as on the stream without them, and
  so returns the record that follows them, or the read error when the input ends.
\<close>

theorem Next_skips_keepalives:
  "(Next ts0 = (Returns (Inr p), ts0') \<longrightarrow> 2 < length p) \<and>
   (streaming ts \<and> content ts = wire ks @ s \<and> (\<forall>k\<in>set ks. CR \<notin> set k \<and> length k \<le> 1) \<longrightarrow>
      (\<exists>ts1. streaming ts1 \<and> content ts1 = s \<and> Next ts = Next ts1) \<and>
      (s = l @ CR # s' \<and> CR \<notin> set l \<and> 2 \<le> length l \<and> length l < 8192 \<longrightarrow>
         fst (Next ts) = Returns (Inr (l @ [CR])) \<and> content (snd (Next ts)) = s') \<and>
      (CR \<notin> set s \<and> length s < 8192 \<and> last_error ts = Some e \<longrightarrow>
         fst (Next ts) = Returns (Inl e) \<and> err (snd (Next ts)) = Some e))"
proof (intro conjI impI)
  assume "Next ts0 = (Returns (Inr p), ts0')"
  from Next_returns [OF this] show "2 < length p" by simp
next
  assume a: "streaming ts \<and> content ts = wire ks @ s \<and> (\<forall>k\<in>set ks. CR \<notin> set k \<and> length k \<le> 1)"
  then obtain ts1 where ts1: "streaming ts1" "content ts1 = s" "last_error ts1 = last_error ts"
    "Next ts = Next ts1"
    using Next_skips [of ts ks s] by blast
  then show "\<exists>ts1. streaming ts1 \<and> content ts1 = s \<and> Next ts = Next ts1" by blast
  {
    assume "s = l @ CR # s' \<and> CR \<notin> set l \<and> 2 \<le> length l \<and> length l < 8192"
    with ts1 Next_record [of ts1 l s']
    show "fst (Next ts) = Returns (Inr (l @ [CR]))" and "content (snd (Next ts)) = s'"
      by simp_all
  }
  {
    assume "CR \<notin> set s \<and> length s < 8192 \<and> last_error ts = Some e"
    with ts1 Next_at_end [of ts1 e]
    show "fst (Next ts) = Returns (Inl e)" and "err (snd (Next ts)) = Some e"
      by simp_all
  }
qed

theorem Next_skips_keepalives_witness:
  "2 < length (''hello'' @ [CR]) \<and>
   fst (Next (stream_of (body_of (wire [[], ''x'', []] @ ''hello'' @ CR # ''rest'') EOF))) =
     Returns (Inr (''hello'' @ [CR])) \<and>
   content (snd (Next (stream_of (body_of (wire [[], ''x'', []] @ ''hello'' @ CR # ''rest'') EOF)))) =
     ''rest'' \<and>
   fst (Next (stream_of (body_of (wire [[], []]) (OtherError ''connection reset'')))) =
     Returns (Inl (OtherError ''connection reset'')) \<and>
   err (snd (Next (stream_of (body_of (wire [[], []]) (OtherError ''connection reset''))))) =
     Some (OtherError ''connection reset'')"
proof -
  let ?a = "stream_of (body_of (''hello'' @ [CR]) EOF)"
  let ?b = "stream_of (body_of (wire [[], ''x'', []] @ ''hello'' @ CR # ''rest'') EOF)"
  let ?c = "stream_of (body_of (wire [[], []]) (OtherError ''connection reset''))"
  have "fst (Next ?a) = Returns (Inr (''hello'' @ [CR]))" by code_simp
  then have a: "Next ?a = (Returns (Inr (''hello'' @ [CR])), snd (Next ?a))"
    by (cases "Next ?a") simp
  have b: "streaming ?b \<and> content ?b = wire [[], ''x'', []] @ ''hello'' @ CR # ''rest'' \<and>
           (\<forall>k\<in>set [[], ''x'', []]. CR \<notin> set k \<and> length k \<le> 1)"
    by (simp add: streaming_stream_of content_stream_of body_of_def CR_def)
  have b2: "''hello'' @ CR # ''rest'' = ''hello'' @ CR # ''rest'' \<and> CR \<notin> set ''hello'' \<and>
            2 \<le> length ''hello'' \<and> length ''hello'' < 8192"
    by (simp add: CR_def)
  have c: "streaming ?c \<and> content ?c = wire [[], []] @ [] \<and>
           (\<forall>k\<in>set [[], []]. CR \<notin> set k \<and> length k \<le> 1)"
    by (simp add: streaming_stream_of content_stream_of body_of_def)
  have c2: "CR \<notin> set [] \<and> length ([] :: string) < 8192 \<and>
            last_error ?c = Some (OtherError ''connection reset'')"
    by (simp add: last_error_stream_of body_of_def)
  note t1 = Next_skips_keepalives [where ?ts0.0 = ?a and p = "''hello'' @ [CR]"
      and ts0' = "snd (Next ?a)", THEN conjunct1, THEN mp, OF a]
  note t2 = Next_skips_keepalives [where ts = ?b and ks = "[[], ''x'', []]"
      and s = "''hello'' @ CR # ''rest''" and l = "''hello''" and s' = "''rest''",
      THEN conjunct2, THEN mp, OF b, THEN conjunct2, THEN conjunct1, THEN mp, OF b2]
  note t3 = Next_skips_keepalives [where ts = ?c and ks = "[[], []]" and s = "[]"
      and e = "OtherError ''connection reset''",
      THEN conjunct2, THEN mp, OF c, THEN conjunct2, THEN conjunct2, THEN mp, OF c2]
  from t1 t2 t3 show ?thesis by blast
qed

text \<open>
  Claim C10. A record of exactly one byte before its delimiter is dropped like a
  keepalive: \<open>Next\<close> does not return it, and goes on to the record that follows, or to the
  read error when nothing follows.
\<close>

theorem one_byte_record_is_dropped:
  assumes "streaming ts" and "content ts = c # CR # s" and "c \<noteq> CR"
  shows "fst (Next ts) \<noteq> Returns (Inr [c, CR]) \<and>
         (\<exists>ts1. streaming ts1 \<and> content ts1 = s \<and> Next ts = Next ts1) \<and>
         (s = l @ CR # s' \<and> CR \<notin> set l \<and> 2 \<le> length l \<and> length l < 8192 \<longrightarrow>
            fst (Next ts) = Returns (Inr (l @ [CR])) \<and> content (snd (Next ts)) = s') \<and>
         (CR \<notin> set s \<and> length s < 8192 \<and> last_error ts = Some e \<longrightarrow>
            fst (Next ts) = Returns (Inl e) \<and> err (snd (Next ts)) = Some e)"
proof -
  from assms(2) have c: "content ts = [c] @ CR # s" by simp
  from assms(3) have "CR \<notin> set [c]" by simp
  from Next_line [OF assms(1) c this]
  obtain ts1 where ts1: "streaming ts1" "content ts1 = s" "last_error ts1 = last_error ts"
    "Next ts = Next ts1" by auto
  have "fst (Next ts) \<noteq> Returns (Inr [c, CR])"
  proof
    assume "fst (Next ts) = Returns (Inr [c, CR])"
    then have "Next ts = (Returns (Inr [c, CR]), snd (Next ts))" by (cases "Next ts") simp
    from Next_returns [OF this] show False by simp
  qed
  moreover from ts1 have "\<exists>ts1. streaming ts1 \<and> content ts1 = s \<and> Next ts = Next ts1" by blast
  moreover have "fst (Next ts) = Returns (Inr (l @ [CR])) \<and> content (snd (Next ts)) = s'"
    if "s = l @ CR # s' \<and> CR \<notin> set l \<and> 2 \<le> length l \<and> length l < 8192"
    using that ts1 Next_record [of ts1 l s'] by simp
  moreover have "fst (Next ts) = Returns (Inl e) \<and> err (snd (Next ts)) = Some e"
    if "CR \<notin> set s \<and> length s < 8192 \<and> last_error ts = Some e"
    using that ts1 Next_at_end [of ts1 e] by simp
  ultimately show ?thesis by blast
qed

theorem one_byte_record_is_dropped_witness:
  "fst (Next (stream_of (body_of (CHR ''a'' # CR # ''hello'' @ CR # []) EOF))) \<noteq>
     Returns (Inr [CHR ''a'', CR]) \<and>
   fst (Next (stream_of (body_of (CHR ''a'' # CR # ''hello'' @ CR # []) EOF))) =
     Returns (Inr (''hello'' @ [CR])) \<and>
   content (snd (Next (stream_of (body_of (CHR ''a'' # CR # ''hello'' @ CR # []) EOF)))) = [] \<and>
   fst (Next (stream_of (body_of [CHR ''a'', CR] EOF))) = Returns (Inl EOF) \<and>
   err (snd (Next (stream_of (body_of [CHR ''a'', CR] EOF)))) = Some EOF"
proof -
  let ?a = "stream_of (body_of (CHR ''a'' # CR # ''hello'' @ CR # []) EOF)"
  let ?b = "stream_of (body_of [CHR ''a'', CR] EOF)"
  have a: "streaming ?a" "content ?a = CHR ''a'' # CR # ''hello'' @ CR # []" "CHR ''a'' \<noteq> CR"
    by (simp_all add: streaming_stream_of content_stream_of body_of_def CR_def)
  have a2: "''hello'' @ CR # [] = ''hello'' @ CR # [] \<and> CR \<notin> set ''hello'' \<and>
            2 \<le> length ''hello'' \<and> length ''hello'' < 8192"
    by (simp add: CR_def)
  have b: "streaming ?b" "content ?b = CHR ''a'' # CR # []" "CHR ''a'' \<noteq> CR"
    by (simp_all add: streaming_stream_of content_stream_of body_of_def CR_def)
  have b2: "CR \<notin> set [] \<and> length ([] :: string) < 8192 \<and> last_error ?b = Some EOF"
    by (simp add: last_error_stream_of body_of_def)
  note t = one_byte_record_is_dropped [OF a, where l = "''hello''" and s' = "[]"]
  note u = one_byte_record_is_dropped [OF b, where e = EOF]
  from t [THEN conjunct1] t [THEN conjunct2, THEN conjunct2, THEN conjunct1, THEN mp, OF a2]
    u [THEN conjunct2, THEN conjunct2, THEN conjunct2, THEN mp, OF b2]
  show ?thesis by blast
qed

text \<open>
  Claim C1 (as amended). On a stream whose input is a sequence of lines, each followed by
  the delimiter and each shorter than the buffer of 8192 bytes, successive calls of
  \<open>Next\<close> return the records among them (the lines of at least two bytes) in order, each
  as its bytes followed by the delimiter, whatever keepalive lines stand between them;
  the stream stays open.
\<close>

theorem Next_returns_records_in_order:
  assumes "streaming ts" and "content ts = wire ls @ s"
    and "\<forall>l\<in>set ls. CR \<notin> set l \<and> length l < 8192"
  shows "fst (Nexts (length (records ls)) ts) = map (\<lambda>l. Returns (Inr (l @ [CR]))) (records ls) \<and>
         streaming (snd (Nexts (length (records ls)) ts))"
  using assms
proof (induction ls arbitrary: ts)
  case Nil
  then show ?case by (simp add: records_def)
next
  case (Cons l ls)
  from Cons.prems have c: "content ts = l @ CR # (wire ls @ s)"
    and l: "CR \<notin> set l" "length l < 8192"
    and ls: "\<forall>l\<in>set ls. CR \<notin> set l \<and> length l < 8192"
    by (simp_all add: wire_def)
  from Next_line [OF Cons.prems(1) c l]
  obtain ts1 where ts1: "streaming ts1" "content ts1 = wire ls @ s"
    and n: "if length l \<le> 1 then Next ts = Next ts1
            else Next ts = (Returns (Inr (l @ [CR])), ts1)"
    by blast
  note IH = Cons.IH [OF ts1 ls]
  show ?case
  proof (cases "length l \<le> 1")
    case True
    then have r: "records (l # ls) = records ls" by (simp add: records_def)
    from True n have nn: "Next ts = Next ts1" by simp
    show ?thesis
    proof (cases "length (records ls)")
      case 0
      with r Cons.prems(1) show ?thesis by simp
    next
      case (Suc m)
      with IH r Nexts_cong [OF nn, of m] show ?thesis by simp
    qed
  next
    case False
    then have r: "records (l # ls) = l # records ls" by (simp add: records_def)
    from False n have "Next ts = (Returns (Inr (l @ [CR])), ts1)" by simp
    with IH r show ?thesis by (simp add: case_prod_beta)
  qed
qed

theorem Next_returns_records_in_order_witness:
  \<open>fst (Nexts (Suc (Suc 0))
          (stream_of ((body_of (wire [[], [], ''{"text":"hello"}'', [], [], ''{"text":"world"}'']) EOF)
                        \<lparr>deliveries := [1, 3, 20, 2]\<rparr>))) =
     [Returns (Inr (''{"text":"hello"}'' @ [CR])), Returns (Inr (''{"text":"world"}'' @ [CR]))] \<and>
   streaming (snd (Nexts (Suc (Suc 0))
          (stream_of ((body_of (wire [[], [], ''{"text":"hello"}'', [], [], ''{"text":"world"}'']) EOF)
                        \<lparr>deliveries := [1, 3, 20, 2]\<rparr>))))\<close>
proof -
  let ?ls = \<open>[[], [], ''{"text":"hello"}'', [], [], ''{"text":"world"}'']\<close>
  let ?a = "stream_of ((body_of (wire ?ls) EOF)\<lparr>deliveries := [1, 3, 20, 2]\<rparr>)"
  have a: "streaming ?a" "content ?a = wire ?ls @ []" "\<forall>l\<in>set ?ls. CR \<notin> set l \<and> length l < 8192"
    by (simp_all add: streaming_stream_of content_stream_of body_of_def CR_def)
  have r: \<open>records ?ls = [''{"text":"hello"}'', ''{"text":"world"}'']\<close>
    by (simp add: records_def)
  from Next_returns_records_in_order [OF a] show ?thesis
    unfolding r by (simp del: Nexts.simps)
qed

text \<open>
  The claim as stated has each returned slice equal to the record without its delimiter.
  \<open>Next\<close> returns the slice \<open>ReadSlice\<close> gave it, which ends with the delimiter.
\<close>

theorem Next_keeps_the_delimiter_counterexample:
  "fst (Next (stream_of (body_of (''abc'' @ [CR]) EOF))) = Returns (Inr (''abc'' @ [CR])) \<and>
   fst (Next (stream_of (body_of (''abc'' @ [CR]) EOF))) \<noteq> Returns (Inr ''abc'')"
  by code_simp

text \<open>
  Claim C8. When the endpoint answers with a status other than 200, \<open>Open\<close> reads the
  whole body, returns an \<open>HTTPStatusError\<close> that holds the status code and all the bytes
  of the body, and returns no stream.
\<close>

theorem Open_reports_http_status:
  assumes "\<forall>form. PostForm urlStr form = Inr resp" and "RespStatusCode resp \<noteq> 200"
    and "closed (RespBody resp) = 0"
  shows "fst (Open SignParam PostForm oauthClient accessToken urlStr params h) =
           Inl (HTTPStatus \<lparr>StatusCode = RespStatusCode resp, Message = pending (RespBody resp)\<rparr>) \<and>
         (\<exists>rd'. fst (snd (Open SignParam PostForm oauthClient accessToken urlStr params h)) = Some rd' \<and>
                pending rd' = [])"
proof -
  from ReadAll_all [OF assms(3), of 8192]
  obtain b' rd' where r: "ReadAll (NewReaderSize 8192) (RespBody resp) =
      ((pending (RespBody resp),
        if final (RespBody resp) = EOF then None else Some (final (RespBody resp))), b', rd')"
    "pending rd' = []" by blast
  from assms(1,2) r show ?thesis
    by (simp add: Open_unfold)
qed

text \<open>
  A signer that adds one field, and an endpoint that answers 503 with the body
  \<open>rate limited\<close>.
\<close>

definition sign_example :: "unit \<Rightarrow> unit \<Rightarrow> string \<Rightarrow> string \<Rightarrow> Values \<Rightarrow> Values" where
  "sign_example oauthClient accessToken method urlStr form =
     AList.update ''oauth_signature'' [''c2lnbmF0dXJl''] form"

definition unavailable :: "string \<Rightarrow> Values \<Rightarrow> error + Response" where
  "unavailable urlStr form = Inr \<lparr>RespStatusCode = 503, RespBody = body_of ''rate limited'' EOF\<rparr>"

theorem Open_reports_http_status_witness:
  "fst (Open sign_example unavailable () () ''https://stream.example/filter.json'' 0
          [[(''track'', [''golang''])]]) =
     Inl (HTTPStatus \<lparr>StatusCode = 503, Message = ''rate limited''\<rparr>) \<and>
   Error \<lparr>StatusCode = 503, Message = ''rate limited''\<rparr> = ''twitterstream: status=503 rate limited''"
proof -
  let ?resp = "\<lparr>RespStatusCode = 503, RespBody = body_of ''rate limited'' EOF\<rparr>"
  have a: "\<forall>form. unavailable ''https://stream.example/filter.json'' form = Inr ?resp"
    "RespStatusCode ?resp \<noteq> 200" "closed (RespBody ?resp) = 0"
    by (simp_all add: unavailable_def body_of_def)
  have e: "Error \<lparr>StatusCode = 503, Message = ''rate limited''\<rparr> =
           ''twitterstream: status=503 rate limited''"
    by code_simp
  from Open_reports_http_status [where PostForm = unavailable
      and urlStr = "''https://stream.example/filter.json''" and resp = ?resp
      and SignParam = sign_example and oauthClient = "()" and accessToken = "()" and params = 0
      and h = "[[(''track'', [''golang''])]]", OF a] e
  show ?thesis by (simp add: body_of_def)
qed

text \<open>
  Claim C9. \<open>Open\<close> leaves the caller's parameter map as it was: every map object of the
  caller's store is unchanged, and the one object \<open>Open\<close> adds is the copy, which is what
  the signer was applied to (for a map with one entry per key, the signed entries of
  \<open>params\<close>).
\<close>

theorem Open_leaves_params_unmodified:
  assumes "params < length h"
  shows "snd (snd (Open SignParam PostForm oauthClient accessToken urlStr params h)) ! params =
           h ! params \<and>
         take (length h) (snd (snd (Open SignParam PostForm oauthClient accessToken urlStr params h))) = h \<and>
         length (snd (snd (Open SignParam PostForm oauthClient accessToken urlStr params h))) =
           Suc (length h) \<and>
         (distinct (map fst (h ! params)) \<longrightarrow>
            snd (snd (Open SignParam PostForm oauthClient accessToken urlStr params h)) ! length h =
              SignParam oauthClient accessToken ''POST'' urlStr (h ! params))"
proof -
  have "fold (\<lambda>(key, values). AList.update key values) (h ! params) [] = h ! params"
    if "distinct (map fst (h ! params))"
    using fold_update_distinct [of "[]" "h ! params"] that by simp
  with assms show ?thesis
    by (simp add: Open_unfold store_after_def posted_form_def entries_def nth_append
        split: sum.splits)
qed

theorem Open_leaves_params_unmodified_witness:
  "snd (snd (Open sign_example unavailable () () ''https://stream.example/filter.json'' 0
               [[(''track'', [''golang''])]])) ! 0 = [(''track'', [''golang''])] \<and>
   snd (snd (Open sign_example unavailable () () ''https://stream.example/filter.json'' 0
               [[(''track'', [''golang''])]])) ! 1 =
     [(''track'', [''golang'']), (''oauth_signature'', [''c2lnbmF0dXJl''])] \<and>
   length (snd (snd (Open sign_example unavailable () () ''https://stream.example/filter.json'' 0
               [[(''track'', [''golang''])]]))) = 2"
proof -
  have a: "0 < length [[(''track'', [''golang''])]]" by simp
  have d: "distinct (map fst ([[(''track'', [''golang''])]] ! 0))" by simp
  note t = Open_leaves_params_unmodified [OF a, of sign_example unavailable "()" "()"
      "''https://stream.example/filter.json''"]
  from t [THEN conjunct1] t [THEN conjunct2, THEN conjunct2, THEN conjunct1]
    t [THEN conjunct2, THEN conjunct2, THEN conjunct2, THEN mp, OF d]
  show ?thesis by (simp add: sign_example_def)
qed

text \<open>
  Claim C3 asks that the body be closed before \<open>Open\<close> returns on a status other than
  200. The code does not do that: on this path \<open>Open\<close> returns an error and the body has
  received exactly the \<open>Close\<close> calls it had when the transport handed it over, that is
  none.
\<close>

theorem Open_http_error_leaves_body_open:
  assumes "\<forall>form. PostForm urlStr form = Inr resp" and "RespStatusCode resp \<noteq> 200"
  shows "\<exists>e rd'. fst (Open SignParam PostForm oauthClient accessToken urlStr params h) = Inl e \<and>
           fst (snd (Open SignParam PostForm oauthClient accessToken urlStr params h)) = Some rd' \<and>
           closed rd' = closed (RespBody resp)"
proof -
  obtain res b' rd' where r: "ReadAll (NewReaderSize 8192) (RespBody resp) = (res, b', rd')"
    by (metis prod.exhaust)
  then have "closed rd' = closed (RespBody resp)"
    unfolding ReadAll_def by (rule ReadAll_loop_frame [THEN conjunct1])
  with assms r show ?thesis
    by (simp add: Open_unfold)
qed

theorem Open_http_error_leaves_body_open_witness:
  "map_option closed
     (fst (snd (Open sign_example unavailable () () ''https://stream.example/filter.json'' 0
                  [[(''track'', [''golang''])]]))) = Some 0 \<and>
   isl (fst (Open sign_example unavailable () () ''https://stream.example/filter.json'' 0
                  [[(''track'', [''golang''])]]))"
proof -
  let ?resp = "\<lparr>RespStatusCode = 503, RespBody = body_of ''rate limited'' EOF\<rparr>"
  have a: "\<forall>form. unavailable ''https://stream.example/filter.json'' form = Inr ?resp"
    "RespStatusCode ?resp \<noteq> 200"
    by (simp_all add: unavailable_def)
  from Open_http_error_leaves_body_open [where PostForm = unavailable
      and urlStr = "''https://stream.example/filter.json''" and resp = ?resp
      and SignParam = sign_example and oauthClient = "()" and accessToken = "()" and params = 0
      and h = "[[(''track'', [''golang''])]]", OF a]
  show ?thesis by (auto simp: body_of_def)
qed

end
